theory Spec2Isabelle
  imports Complex_Main "HOL-Library.AList"
begin

section \<open>Python values and exceptions\<close>

text \<open>
  The exceptions that \<^verbatim>\<open>mazes.py\<close> can raise. A function that may raise returns
  \<open>error + 'a\<close>, with \<open>Inl\<close> for the exception.
\<close>

datatype error =
  AssertionError | KeyError | IndexError | AttributeError | ValueError | ZeroDivisionError

text \<open>
  A cell object is identified by its position \<open>(row, column)\<close>: \<^verbatim>\<open>Grid.create_cells\<close>
  creates exactly one \<^verbatim>\<open>Cell\<close> per position, and \<^verbatim>\<open>Cell\<close> defines neither
  \<^verbatim>\<open>__eq__\<close> nor \<^verbatim>\<open>__hash__\<close>, so cells are compared and hashed by object identity.
\<close>

type_synonym cell = "int \<times> int"

text \<open>
  The dynamically typed values that the source compares with \<^verbatim>\<open>==\<close> or reads an
  attribute of: a cell, a boolean, an integer, a list of cells (a row of the grid) and
  the bound method \<^verbatim>\<open>link_count\<close> of a cell.
\<close>

datatype pyval =
  PyCell cell | PyBool bool | PyInt int | PyList "cell list" | PyMethod cell

text \<open>
  Python's \<^verbatim>\<open>==\<close> on these values: booleans are integers (\<^verbatim>\<open>True == 1\<close>), lists
  compare elementwise, cells and bound methods compare by the identity of the cell, and
  values of unrelated types are unequal.
\<close>

fun py_eq :: "pyval \<Rightarrow> pyval \<Rightarrow> bool" where
  "py_eq (PyCell a) (PyCell b) = (a = b)"
| "py_eq (PyBool a) (PyBool b) = (a = b)"
| "py_eq (PyInt a) (PyInt b) = (a = b)"
| "py_eq (PyBool a) (PyInt b) = ((if a then 1 else 0) = b)"
| "py_eq (PyInt a) (PyBool b) = (a = (if b then 1 else 0))"
| "py_eq (PyList a) (PyList b) = (a = b)"
| "py_eq (PyMethod a) (PyMethod b) = (a = b)"
| "py_eq _ _ = False"

text \<open>\<^verbatim>\<open>range(n)\<close>: the integers \<open>0, ..., n - 1\<close>.\<close>

definition py_range :: "int \<Rightarrow> int list" where
  "py_range n = [0..n - 1]"

text \<open>
  List subscription \<^verbatim>\<open>xs[i]\<close>. An index from \<open>0\<close> up to the length reads from the
  front, an index from minus the length up to \<open>-1\<close> reads from the back, and any other
  index raises \<^verbatim>\<open>IndexError\<close>.
\<close>

definition py_get :: "'a list \<Rightarrow> int \<Rightarrow> error + 'a" where
  "py_get xs i =
     (if 0 \<le> i \<and> i < int (length xs) then Inr (xs ! nat i)
      else if - int (length xs) \<le> i \<and> i < 0 then Inr (xs ! nat (int (length xs) + i))
      else Inl IndexError)"

section \<open>Cell and Grid\<close>

text \<open>
  The heap of one \<^verbatim>\<open>Grid\<close>: its two dimensions and, for every cell, the fields of
  the \<^verbatim>\<open>Cell\<close> object. \<open>links\<close> is the dictionary \<^verbatim>\<open>self.links\<close>, kept as an
  association list in insertion order (the order in which Python iterates it);
  \<open>north\<close>, \<open>south\<close>, \<open>east\<close> and \<open>west\<close> are the neighbour attributes, \<open>None\<close>
  for Python's \<^verbatim>\<open>None\<close>. The list of lists \<^verbatim>\<open>self.grid\<close> holds the cell \<open>(i, j)\<close>
  at \<^verbatim>\<open>self.grid[i][j]\<close>.
\<close>

record grid =
  num_rows :: int
  num_columns :: int
  links :: "cell \<Rightarrow> (cell \<times> bool) list"
  north :: "cell \<Rightarrow> cell option"
  south :: "cell \<Rightarrow> cell option"
  east :: "cell \<Rightarrow> cell option"
  west :: "cell \<Rightarrow> cell option"

text \<open>\<^verbatim>\<open>self.links[cell] = v\<close> on the cell \<open>self\<close>.\<close>

definition set_link :: "grid \<Rightarrow> cell \<Rightarrow> cell \<Rightarrow> bool \<Rightarrow> grid" where
  "set_link g self cell v = g\<lparr>links := (links g)(self := AList.update cell v (links g self))\<rparr>"

text \<open>\<^verbatim>\<open>Cell.link\<close> and \<^verbatim>\<open>Cell.unlink\<close>, with the call they make on the other cell.\<close>

function link :: "grid \<Rightarrow> cell \<Rightarrow> cell \<Rightarrow> bool \<Rightarrow> grid" where
  "link g self cell bidirectional =
     (let g' = set_link g self cell True
      in if bidirectional then link g' cell self False else g')"
  by pat_completeness auto
termination
  by (relation "measure (\<lambda>(g, self, cell, b). if b then 1 else 0)") auto

function unlink :: "grid \<Rightarrow> cell \<Rightarrow> cell \<Rightarrow> bool \<Rightarrow> grid" where
  "unlink g self cell bidirectional =
     (let g' = set_link g self cell False
      in if bidirectional then unlink g' cell self False else g')"
  by pat_completeness auto
termination
  by (relation "measure (\<lambda>(g, self, cell, b). if b then 1 else 0)") auto

declare link.simps [simp del] unlink.simps [simp del]

text \<open>\<^verbatim>\<open>Cell.is_linked\<close>: \<^verbatim>\<open>self.links[cell]\<close>, a \<^verbatim>\<open>KeyError\<close> when there is no entry.\<close>

definition is_linked :: "grid \<Rightarrow> cell \<Rightarrow> cell \<Rightarrow> error + bool" where
  "is_linked g self cell =
     (case map_of (links g self) cell of None \<Rightarrow> Inl KeyError | Some v \<Rightarrow> Inr v)"

text \<open>
  \<^verbatim>\<open>Cell.link_count\<close>: the loop \<^verbatim>\<open>for item in self.links\<close> iterates the keys of the
  dictionary, which are cells, and counts those with \<^verbatim>\<open>item == True\<close>.
\<close>

definition link_count :: "grid \<Rightarrow> cell \<Rightarrow> int" where
  "link_count g self =
     foldl (\<lambda>i item. if py_eq (PyCell item) (PyBool True) then i + 1 else i) 0
       (map fst (links g self))"

text \<open>\<^verbatim>\<open>Cell.neighbors\<close>: the neighbours that exist, in the order north, south, east, west.\<close>

definition neighbors :: "grid \<Rightarrow> cell \<Rightarrow> cell list" where
  "neighbors g self =
     (case north g self of None \<Rightarrow> [] | Some c \<Rightarrow> [c]) @
     (case south g self of None \<Rightarrow> [] | Some c \<Rightarrow> [c]) @
     (case east g self of None \<Rightarrow> [] | Some c \<Rightarrow> [c]) @
     (case west g self of None \<Rightarrow> [] | Some c \<Rightarrow> [c])"

text \<open>
  \<^verbatim>\<open>Grid.create_cells\<close>: every cell starts with an empty link table and no neighbour.
\<close>

definition create_cells :: "int \<Rightarrow> int \<Rightarrow> grid" where
  "create_cells r c =
     \<lparr>num_rows = r, num_columns = c, links = (\<lambda>_. []),
      north = (\<lambda>_. None), south = (\<lambda>_. None), east = (\<lambda>_. None), west = (\<lambda>_. None)\<rparr>"

text \<open>The body of the two loops of \<^verbatim>\<open>Grid.connect_cells\<close> for the cell \<open>(i, j)\<close>.\<close>

definition connect_cell :: "grid \<Rightarrow> int \<Rightarrow> int \<Rightarrow> grid" where
  "connect_cell g i j =
     (let g1 = (if i \<noteq> num_rows g - 1
                then (let h = link g (i, j) (i + 1, j) True
                      in h\<lparr>south := (south h)((i, j) \<mapsto> (i + 1, j))\<rparr>)
                else g);
          g2 = (if i \<noteq> 0
                then (let h = link g1 (i, j) (i - 1, j) True
                      in h\<lparr>north := (north h)((i, j) \<mapsto> (i - 1, j))\<rparr>)
                else g1);
          g3 = (if j \<noteq> num_columns g - 1
                then (let h = link g2 (i, j) (i, j + 1) True
                      in h\<lparr>east := (east h)((i, j) \<mapsto> (i, j + 1))\<rparr>)
                else g2);
          g4 = (if j \<noteq> 0
                then (let h = link g3 (i, j) (i, j - 1) True
                      in h\<lparr>west := (west h)((i, j) \<mapsto> (i, j - 1))\<rparr>)
                else g3)
      in g4)"

text \<open>
  A loop \<^verbatim>\<open>for i in range(num_rows): for j in range(num_columns): body\<close> over the
  cells of a grid, row by row.
\<close>

definition for_each_cell :: "(grid \<Rightarrow> int \<Rightarrow> int \<Rightarrow> grid) \<Rightarrow> grid \<Rightarrow> grid" where
  "for_each_cell body g =
     foldl (\<lambda>g i. foldl (\<lambda>g j. body g i j) g (py_range (num_columns g)))
       g (py_range (num_rows g))"

definition connect_cells :: "grid \<Rightarrow> grid" where
  "connect_cells g = for_each_cell connect_cell g"

text \<open>
  \<^verbatim>\<open>Grid.__init__\<close>: its two assertions, then \<^verbatim>\<open>create_cells\<close> and
  \<^verbatim>\<open>connect_cells\<close>; \<open>new_grid\<close> is the grid that a call which passes the
  assertions builds.
\<close>

definition new_grid :: "int \<Rightarrow> int \<Rightarrow> grid" where
  "new_grid r c = connect_cells (create_cells r c)"

definition Grid :: "int \<Rightarrow> int \<Rightarrow> error + grid" where
  "Grid r c =
     (if \<not> r > 0 then Inl AssertionError
      else if \<not> c > 0 then Inl AssertionError
      else Inr (new_grid r c))"

text \<open>\<^verbatim>\<open>Grid.unlink_all\<close>: the body of its loops, and the loops.\<close>

definition unlink_cell :: "grid \<Rightarrow> int \<Rightarrow> int \<Rightarrow> grid" where
  "unlink_cell g i j =
     (let g1 = (if i \<noteq> num_rows g - 1 then unlink g (i, j) (i + 1, j) True else g);
          g2 = (if i \<noteq> 0 then unlink g1 (i, j) (i - 1, j) True else g1);
          g3 = (if j \<noteq> num_columns g - 1 then unlink g2 (i, j) (i, j + 1) True else g2);
          g4 = (if j \<noteq> 0 then unlink g3 (i, j) (i, j - 1) True else g3)
      in g4)"

definition unlink_all :: "grid \<Rightarrow> grid" where
  "unlink_all g = for_each_cell unlink_cell g"

text \<open>
  \<^verbatim>\<open>Grid.cell_at\<close>: \<^verbatim>\<open>self.grid[row][column]\<close>, two list lookups with Python's
  indexing, so a negative index counts from the end and nothing else is checked.
\<close>

definition cell_at :: "grid \<Rightarrow> int \<Rightarrow> int \<Rightarrow> error + cell" where
  "cell_at g row column =
     (case py_get (py_range (num_rows g)) row of
        Inl e \<Rightarrow> Inl e
      | Inr i \<Rightarrow>
          (case py_get (py_range (num_columns g)) column of
             Inl e \<Rightarrow> Inl e
           | Inr j \<Rightarrow> Inr (i, j)))"

text \<open>\<^verbatim>\<open>Grid.size\<close> and \<^verbatim>\<open>Grid.each_cell\<close> (the cells row by row).\<close>

definition size_grid :: "grid \<Rightarrow> int" where
  "size_grid g = num_columns g * num_rows g"

definition each_cell :: "grid \<Rightarrow> cell list" where
  "each_cell g =
     concat (map (\<lambda>row. map (\<lambda>col. (row, col)) (py_range (num_columns g)))
       (py_range (num_rows g)))"

text \<open>
  \<^verbatim>\<open>Grid.deadends\<close>. The loop \<^verbatim>\<open>for item in self.grid\<close> iterates the rows of the
  grid, each a list of cells; \<^verbatim>\<open>item.link_count\<close> reads an attribute and does not call
  it. A list has no attribute \<^verbatim>\<open>link_count\<close> (\<^verbatim>\<open>AttributeError\<close>); on a cell the
  attribute is the bound method.
\<close>

definition grid_rows :: "grid \<Rightarrow> pyval list" where
  "grid_rows g =
     map (\<lambda>i. PyList (map (\<lambda>j. (i, j)) (py_range (num_columns g)))) (py_range (num_rows g))"

fun getattr_link_count :: "pyval \<Rightarrow> error + pyval" where
  "getattr_link_count (PyCell c) = Inr (PyMethod c)"
| "getattr_link_count _ = Inl AttributeError"

fun deadends_loop :: "pyval list \<Rightarrow> pyval list \<Rightarrow> error + pyval list" where
  "deadends_loop result [] = Inr result"
| "deadends_loop result (item # items) =
     (case getattr_link_count item of
        Inl e \<Rightarrow> Inl e
      | Inr a \<Rightarrow>
          if py_eq a (PyInt 1) then deadends_loop (result @ [item]) items
          else deadends_loop result items)"

definition deadends :: "grid \<Rightarrow> error + pyval list" where
  "deadends g = deadends_loop [] (grid_rows g)"

section \<open>Positions and geographic adjacency\<close>

text \<open>
  \<open>in_grid r c x\<close>: the position \<open>x\<close> lies in a grid of \<open>r\<close> rows and \<open>c\<close> columns.
  \<open>geo r c x y\<close>: \<open>y\<close> is one of the up to four positions that the loops of
  \<^verbatim>\<open>connect_cells\<close> and \<^verbatim>\<open>unlink_all\<close> pair with \<open>x\<close>, under the same guards.
\<close>

definition in_grid :: "int \<Rightarrow> int \<Rightarrow> cell \<Rightarrow> bool" where
  "in_grid r c x = (0 \<le> fst x \<and> fst x < r \<and> 0 \<le> snd x \<and> snd x < c)"

definition geo :: "int \<Rightarrow> int \<Rightarrow> cell \<Rightarrow> cell \<Rightarrow> bool" where
  "geo r c x y =
     ((fst x \<noteq> r - 1 \<and> y = (fst x + 1, snd x)) \<or> (fst x \<noteq> 0 \<and> y = (fst x - 1, snd x)) \<or>
      (snd x \<noteq> c - 1 \<and> y = (fst x, snd x + 1)) \<or> (snd x \<noteq> 0 \<and> y = (fst x, snd x - 1)))"

section \<open>Sequences of link and unlink calls\<close>

text \<open>
  A call of \<^verbatim>\<open>link\<close> or \<^verbatim>\<open>unlink\<close> on a cell: the cell it is called on, the cell
  passed, and the argument \<^verbatim>\<open>bidirectional\<close>. \<open>run_calls\<close> runs a sequence of calls.
\<close>

datatype call = Link cell cell bool | Unlink cell cell bool

fun run_call :: "grid \<Rightarrow> call \<Rightarrow> grid" where
  "run_call g (Link self cell bidirectional) = link g self cell bidirectional"
| "run_call g (Unlink self cell bidirectional) = unlink g self cell bidirectional"

definition run_calls :: "grid \<Rightarrow> call list \<Rightarrow> grid" where
  "run_calls g cs = foldl run_call g cs"

text \<open>
  The invocations of \<^verbatim>\<open>link\<close> / \<^verbatim>\<open>unlink\<close> that one call makes, each as the pair of
  the cell it runs on and the cell passed to it: the call itself and, when
  \<^verbatim>\<open>bidirectional\<close> is true, the call \<^verbatim>\<open>cell.link(self, bidirectional=False)\<close> that the
  body makes on the other cell.
\<close>

fun invocations :: "call \<Rightarrow> (cell \<times> cell) list" where
  "invocations (Link self cell bidirectional) =
     (self, cell) # (if bidirectional then [(cell, self)] else [])"
| "invocations (Unlink self cell bidirectional) =
     (self, cell) # (if bidirectional then [(cell, self)] else [])"

fun is_bidirectional :: "call \<Rightarrow> bool" where
  "is_bidirectional (Link self cell bidirectional) = bidirectional"
| "is_bidirectional (Unlink self cell bidirectional) = bidirectional"

text \<open>The link tables are symmetric: the entry of \<open>a\<close> for \<open>b\<close> is the entry of \<open>b\<close> for \<open>a\<close>.\<close>

definition symmetric_links :: "grid \<Rightarrow> bool" where
  "symmetric_links g = (\<forall>a b. map_of (links g a) b = map_of (links g b) a)"

section \<open>Markup and colorization\<close>

text \<open>
  \<^verbatim>\<open>Markup\<close>: the dictionary \<^verbatim>\<open>self.marks\<close>, in insertion order, and the default value.
  The markups that \<^verbatim>\<open>intensity_colorize\<close> reads hold numbers; here they are integers, as
  distances are.
\<close>

record markup =
  marks :: "(cell \<times> int) list"
  default_mark :: int

text \<open>\<^verbatim>\<open>Markup.__getitem__\<close>: \<^verbatim>\<open>self.marks.get(cell, self.default)\<close>.\<close>

definition markup_getitem :: "markup \<Rightarrow> cell \<Rightarrow> int" where
  "markup_getitem m cell = (case map_of (marks m) cell of None \<Rightarrow> default_mark m | Some v \<Rightarrow> v)"

text \<open>
  \<^verbatim>\<open>Markup.max\<close>: \<^verbatim>\<open>max(self.marks.keys(), key=self.__getitem__)\<close>. Python's \<^verbatim>\<open>max\<close>
  raises \<^verbatim>\<open>ValueError\<close> on an empty sequence and otherwise returns the first key whose
  value is greatest.
\<close>

fun max_by :: "('a \<Rightarrow> int) \<Rightarrow> 'a \<Rightarrow> 'a list \<Rightarrow> 'a" where
  "max_by key best [] = best"
| "max_by key best (x # xs) = (if key best < key x then max_by key x xs else max_by key best xs)"

definition markup_max :: "markup \<Rightarrow> error + cell" where
  "markup_max m =
     (case map fst (marks m) of
        [] \<Rightarrow> Inl ValueError
      | k # ks \<Rightarrow> Inr (max_by (markup_getitem m) k ks))"

text \<open>
  \<^verbatim>\<open>DijkstraMarkup.__init__\<close>: the body calls \<^verbatim>\<open>Markup.__init__\<close> with the default
  \<open>0\<close> and then is \<^verbatim>\<open>pass\<close>, so the markup it builds has no entry, whatever the root.
\<close>

definition DijkstraMarkup :: "grid \<Rightarrow> cell \<Rightarrow> markup" where
  "DijkstraMarkup g root_cell = \<lparr>marks = [], default_mark = 0\<rparr>"

text \<open>
  The three floating-point operations of \<^verbatim>\<open>intensity_colorize\<close>: the true division of
  two integers with a non-zero divisor, the product of an integer and a float, and
  \<^verbatim>\<open>round\<close>. Their rounding is not modelled: they are parameters of the model, and
  \<open>exact_ops\<close> below is the instance that computes in the rationals and rounds halves
  to the even integer.
\<close>

record 'f float_ops =
  truediv :: "int \<Rightarrow> int \<Rightarrow> 'f"
  mul_int :: "int \<Rightarrow> 'f \<Rightarrow> 'f"
  round_float :: "'f \<Rightarrow> int"

text \<open>\<^verbatim>\<open>ColorizedMarkup\<close>: its grid, its channel and its marks, each an RGB triplet.\<close>

record colorized_markup =
  cm_grid :: grid
  channel :: string
  cm_marks :: "(cell \<times> int list) list"

text \<open>
  \<^verbatim>\<open>ColorizedMarkup.intensity_colorize\<close>: the body of its loop over \<^verbatim>\<open>each_cell()\<close>, the
  loop, and the method. The division \<^verbatim>\<open>(max_value - cell_value) / max_value\<close> raises
  \<^verbatim>\<open>ZeroDivisionError\<close> when \<^verbatim>\<open>max_value\<close> is \<open>0\<close>; the source has no guard.
\<close>

definition colorize_cell ::
  "'f float_ops \<Rightarrow> markup \<Rightarrow> int \<Rightarrow> colorized_markup \<Rightarrow> cell \<Rightarrow> error + colorized_markup" where
  "colorize_cell ops markup max_value self c =
     (let cell_value = markup_getitem markup c
      in if max_value = 0 then Inl ZeroDivisionError
         else
           (let intensity = truediv ops (max_value - cell_value) max_value;
                dark = round_float ops (mul_int ops 255 intensity);
                bright = round_float ops (mul_int ops 127 intensity) + 128
            in if channel self = ''R''
               then Inr (self\<lparr>cm_marks := AList.update c [bright, dark, dark] (cm_marks self)\<rparr>)
               else if channel self = ''G''
               then Inr (self\<lparr>cm_marks := AList.update c [dark, bright, dark] (cm_marks self)\<rparr>)
               else Inr (self\<lparr>cm_marks := AList.update c [dark, dark, bright] (cm_marks self)\<rparr>)))"

fun colorize_loop ::
  "'f float_ops \<Rightarrow> markup \<Rightarrow> int \<Rightarrow> colorized_markup \<Rightarrow> cell list \<Rightarrow> error + colorized_markup" where
  "colorize_loop ops markup max_value self [] = Inr self"
| "colorize_loop ops markup max_value self (c # cs) =
     (case colorize_cell ops markup max_value self c of
        Inl e \<Rightarrow> Inl e
      | Inr self' \<Rightarrow> colorize_loop ops markup max_value self' cs)"

definition intensity_colorize ::
  "'f float_ops \<Rightarrow> colorized_markup \<Rightarrow> markup \<Rightarrow> error + colorized_markup" where
  "intensity_colorize ops self markup =
     (case markup_max markup of
        Inl e \<Rightarrow> Inl e
      | Inr mx \<Rightarrow>
          colorize_loop ops markup (markup_getitem markup mx) self (each_cell (cm_grid self)))"

text \<open>
  \<^verbatim>\<open>ColorizedMarkup.colorize_dijkstra\<close>. \<open>dijkstra_root\<close> is its first three statements:
  \<^verbatim>\<open>not start_row\<close> holds for \<^verbatim>\<open>None\<close> and for \<open>0\<close>, and the start cell, which is the
  root passed to \<^verbatim>\<open>DijkstraMarkup\<close>, is read with \<^verbatim>\<open>cell_at\<close>.
\<close>

definition dijkstra_root :: "grid \<Rightarrow> int option \<Rightarrow> int option \<Rightarrow> error + cell" where
  "dijkstra_root g start_row start_column =
     (let start_row' = (case start_row of
                          None \<Rightarrow> num_rows g div 2
                        | Some r \<Rightarrow> if r = 0 then num_rows g div 2 else r);
          start_column' = (case start_column of
                             None \<Rightarrow> num_columns g div 2
                           | Some c \<Rightarrow> if c = 0 then num_columns g div 2 else c)
      in cell_at g start_row' start_column')"

definition colorize_dijkstra ::
  "'f float_ops \<Rightarrow> colorized_markup \<Rightarrow> int option \<Rightarrow> int option \<Rightarrow> error + colorized_markup" where
  "colorize_dijkstra ops self start_row start_column =
     (case dijkstra_root (cm_grid self) start_row start_column of
        Inl e \<Rightarrow> Inl e
      | Inr start_cell \<Rightarrow> intensity_colorize ops self (DijkstraMarkup (cm_grid self) start_cell))"

text \<open>The operations in exact rational arithmetic.\<close>

definition exact_ops :: "rat float_ops" where
  "exact_ops = \<lparr>truediv = (\<lambda>a b. of_int a / of_int b), mul_int = (\<lambda>n x. of_int n * x),
                round_float = (\<lambda>x. let f = \<lfloor>x\<rfloor>; d = x - of_int f
                                    in if d < 1 / 2 then f else if 1 / 2 < d then f + 1
                                       else if even f then f else f + 1)\<rparr>"

section \<open>The random source\<close>

text \<open>
  The module-wide generator of \<^verbatim>\<open>random\<close> is a stream of raw natural numbers, read at a
  position that every call advances by one. Each call reduces the raw number into its
  range, so every value of the range can be drawn and no other: \<^verbatim>\<open>randint(a, b)\<close> is
  \<open>a + raw mod (b - a + 1)\<close>, \<^verbatim>\<open>randrange(0, n)\<close> is \<open>raw mod n\<close>, and
  \<^verbatim>\<open>choice(xs)\<close> is \<^verbatim>\<open>xs[raw mod len(xs)]\<close>, an \<^verbatim>\<open>IndexError\<close> on an empty list.
  \<open>rnd_of_list\<close> is the stream that starts with the given numbers and goes on with zeros.
\<close>

type_synonym rnd = "nat \<Rightarrow> nat"

definition randint :: "rnd \<Rightarrow> nat \<Rightarrow> int \<Rightarrow> int \<Rightarrow> int" where
  "randint rnd k a b = a + int (rnd k mod nat (b - a + 1))"

definition randrange :: "rnd \<Rightarrow> nat \<Rightarrow> int \<Rightarrow> int" where
  "randrange rnd k n = int (rnd k mod nat n)"

definition py_choice :: "rnd \<Rightarrow> nat \<Rightarrow> 'a list \<Rightarrow> error + 'a" where
  "py_choice rnd k xs = (if xs = [] then Inl IndexError else Inr (xs ! (rnd k mod length xs)))"

definition rnd_of_list :: "nat list \<Rightarrow> rnd" where
  "rnd_of_list xs k = (if k < length xs then xs ! k else 0)"

section \<open>The binary tree algorithm\<close>

text \<open>
  \<^verbatim>\<open>binary_tree\<close>. \<open>binary_tree_cell\<close> is the body of the inner loop for the cell
  \<open>(i, j)\<close>, on the grid and the position in the random stream; \<^verbatim>\<open>grid.cell_at(i, j)\<close> is
  the cell \<open>(i, j)\<close>, the indices being in range. The two counting loops
  (\<open>i\<close> from \<^verbatim>\<open>num_rows - 1\<close> down to \<open>0\<close>, \<open>j\<close> from \<open>0\<close> up to \<^verbatim>\<open>num_columns - 1\<close>)
  are folds over these ranges.
\<close>

definition binary_tree_cell :: "rnd \<Rightarrow> grid \<times> nat \<Rightarrow> int \<Rightarrow> int \<Rightarrow> grid \<times> nat" where
  "binary_tree_cell rnd s i j =
     (let g = fst s; k = snd s
      in if i = 0 \<and> j = num_columns g - 1 then (g, k)
         else if i = 0 then (link g (i, j) (i, j + 1) True, k)
         else if j = num_columns g - 1 then (link g (i, j) (i - 1, j) True, k)
         else
           (let r = randint rnd k 0 1;
                g1 = (if r = 0 then unlink g (i, j) (i, j + 1) True else g);
                g2 = (if r = 1 then unlink g1 (i, j) (i - 1, j) True else g1)
            in (g2, k + 1)))"

definition binary_tree :: "rnd \<Rightarrow> grid \<Rightarrow> grid" where
  "binary_tree rnd g =
     fst (foldl (\<lambda>s i. foldl (\<lambda>s j. binary_tree_cell rnd s i j) s
                          (py_range (num_columns (fst s))))
            (g, 0) (rev (py_range (num_rows g))))"

text \<open>
  For the proofs: \<open>is_pair x y a b\<close> says that \<open>(x, y)\<close> is \<open>(a, b)\<close> in one of the two
  orders, and \<open>protected r c x y\<close> that \<open>x\<close> and \<open>y\<close> are neighbours in row \<open>0\<close> or in the
  last column of a grid of \<open>r\<close> rows and \<open>c\<close> columns.
\<close>

definition is_pair :: "cell \<Rightarrow> cell \<Rightarrow> cell \<Rightarrow> cell \<Rightarrow> bool" where
  "is_pair x y a b = ((x = a \<and> y = b) \<or> (x = b \<and> y = a))"

definition protected :: "int \<Rightarrow> int \<Rightarrow> cell \<Rightarrow> cell \<Rightarrow> bool" where
  "protected r c x y =
     (in_grid r c x \<and> in_grid r c y \<and>
      ((fst x = 0 \<and> fst y = 0 \<and> \<bar>snd x - snd y\<bar> = 1) \<or>
       (snd x = c - 1 \<and> snd y = c - 1 \<and> \<bar>fst x - fst y\<bar> = 1)))"

section \<open>The recursive backtracker\<close>

text \<open>
  \<^verbatim>\<open>del xs[i]\<close> and \<^verbatim>\<open>xs.pop(i)\<close> (the list without the element at the index, with
  Python's indexing), and \<^verbatim>\<open>xs.remove(x)\<close> (the first occurrence, a \<^verbatim>\<open>ValueError\<close>
  when there is none).
\<close>

definition py_del :: "'a list \<Rightarrow> int \<Rightarrow> error + 'a list" where
  "py_del xs i =
     (if 0 \<le> i \<and> i < int (length xs) then Inr (take (nat i) xs @ drop (nat i + 1) xs)
      else if - int (length xs) \<le> i \<and> i < 0
      then Inr (take (nat (int (length xs) + i)) xs @ drop (nat (int (length xs) + i) + 1) xs)
      else Inl IndexError)"

definition py_remove :: "'a \<Rightarrow> 'a list \<Rightarrow> error + 'a list" where
  "py_remove x xs = (if x \<in> set xs then Inr (remove1 x xs) else Inl ValueError)"

text \<open>\<^verbatim>\<open>Grid.random_cell\<close>: two draws, and the cell at these indices.\<close>

definition random_cell :: "rnd \<Rightarrow> nat \<Rightarrow> grid \<Rightarrow> cell \<times> nat" where
  "random_cell rnd k g =
     (let i = randint rnd k 0 (num_rows g - 1);
          j = randint rnd (k + 1) 0 (num_columns g - 1)
      in ((i, j), k + 2))"

text \<open>
  The loop \<^verbatim>\<open>for item in visited\<close> of \<^verbatim>\<open>recursive_backtracker\<close>, on the flags
  \<open>(N, S, E, W)\<close>: for each visited cell only the first test that holds sets its flag,
  because of the \<^verbatim>\<open>continue\<close>; a test holds also when that neighbour is \<^verbatim>\<open>None\<close>.
\<close>

type_synonym flags = "bool \<times> bool \<times> bool \<times> bool"

fun occupied_step :: "grid \<Rightarrow> cell \<Rightarrow> flags \<Rightarrow> cell \<Rightarrow> flags" where
  "occupied_step g cur (N, S, E, W) item =
     (if north g cur = Some item \<or> north g cur = None then (True, S, E, W)
      else if south g cur = Some item \<or> south g cur = None then (N, True, E, W)
      else if east g cur = Some item \<or> east g cur = None then (N, S, True, W)
      else if west g cur = Some item \<or> west g cur = None then (N, S, E, True)
      else (N, S, E, W))"

definition occupied :: "grid \<Rightarrow> cell \<Rightarrow> cell list \<Rightarrow> flags" where
  "occupied g cur visited = foldl (occupied_step g cur) (False, False, False, False) visited"

text \<open>
  The chain of \<^verbatim>\<open>if\<close> / \<^verbatim>\<open>elif\<close> after the draw \<open>r\<close>: the neighbour that is pushed,
  marked visited and linked, if any.
\<close>

definition rb_choose :: "grid \<Rightarrow> cell \<Rightarrow> flags \<Rightarrow> int \<Rightarrow> cell option" where
  "rb_choose g here f r =
     (case f of (N, S, E, W) \<Rightarrow>
        if r = 1 \<and> north g here \<noteq> None \<and> N = False then north g here
        else if r = 2 \<and> south g here \<noteq> None \<and> S = False then south g here
        else if r = 3 \<and> east g here \<noteq> None \<and> E = False then east g here
        else if r = 4 \<and> west g here \<noteq> None \<and> W = False then west g here
        else None)"

text \<open>
  The \<^verbatim>\<open>while\<close> loop of \<^verbatim>\<open>recursive_backtracker\<close>, on the grid, the stack, the list
  \<^verbatim>\<open>visited\<close>, the index \<open>i\<close> and the position in the random stream. The loop may run
  forever: not returning is the value \<open>None\<close>. It returns the grid (and the position
  reached), or the exception of a list access.
\<close>

partial_function (option) rb_loop ::
  "rnd \<Rightarrow> grid \<Rightarrow> cell list \<Rightarrow> cell list \<Rightarrow> int \<Rightarrow> nat \<Rightarrow> (error + grid \<times> nat) option" where
  "rb_loop rnd g stack visited i k =
     (if \<not> int (length visited) \<le> size_grid g then Some (Inr (g, k))
      else if int (length visited) = size_grid g then Some (Inr (g, k))
      else
        (case py_get stack i of
           Inl e \<Rightarrow> Some (Inl e)
         | Inr cur \<Rightarrow>
             (case occupied g cur visited of (N, S, E, W) \<Rightarrow>
                if N = True \<and> S = True \<and> E = True \<and> W = True
                then
                  (case py_del stack i of
                     Inl e \<Rightarrow> Some (Inl e)
                   | Inr stack' \<Rightarrow>
                       (case py_get stack' (int (length stack') - 1) of
                          Inl e \<Rightarrow> Some (Inl e)
                        | Inr _ \<Rightarrow> rb_loop rnd g stack' visited (int (length stack') - 1) k))
                else
                  (let r = randint rnd k 1 4;
                       i' = int (length stack) - 1
                   in case py_get stack i' of
                        Inl e \<Rightarrow> Some (Inl e)
                      | Inr here \<Rightarrow>
                          (case rb_choose g here (N, S, E, W) r of
                             None \<Rightarrow> rb_loop rnd g stack visited (int (length stack) - 1) (k + 1)
                           | Some n \<Rightarrow>
                               rb_loop rnd (link g here n True) (stack @ [n]) (visited @ [n])
                                 (int (length (stack @ [n])) - 1) (k + 1))))))"

definition recursive_backtracker ::
  "rnd \<Rightarrow> grid \<Rightarrow> cell option \<Rightarrow> (error + grid \<times> nat) option" where
  "recursive_backtracker rnd g start_cell =
     (case (case start_cell of None \<Rightarrow> random_cell rnd 0 g | Some c \<Rightarrow> (c, 0)) of
        (start, k) \<Rightarrow> rb_loop rnd (unlink_all g) [start] [start] 0 k)"

section \<open>Connectivity\<close>

text \<open>
  A passage is a link whose stored state is \<^verbatim>\<open>True\<close>; a cell is reachable from another
  through a chain of passages; a grid is connected when every cell is reachable from
  every cell.
\<close>

definition passage :: "grid \<Rightarrow> cell \<Rightarrow> cell \<Rightarrow> bool" where
  "passage g a b = (map_of (links g a) b = Some True)"

definition reachable :: "grid \<Rightarrow> cell \<Rightarrow> cell \<Rightarrow> bool" where
  "reachable g a b = (passage g)\<^sup>*\<^sup>* a b"

definition connected :: "grid \<Rightarrow> bool" where
  "connected g = list_all (\<lambda>a. list_all (\<lambda>b. reachable g a b) (each_cell g)) (each_cell g)"

text \<open>
  A run of \<^verbatim>\<open>recursive_backtracker\<close> on a \<open>2 \<times> 2\<close> grid: the random stream gives the
  start cell \<open>(0, 0)\<close> and then the directions \<open>2\<close>, \<open>3\<close>, \<open>4\<close>; \<open>rb_result\<close> is the grid
  with the three links that this run makes.
\<close>

definition rb_rnd :: rnd where
  "rb_rnd = rnd_of_list [0, 0, 1, 2, 3]"

definition rb_result :: grid where
  "rb_result =
     link (link (link (unlink_all (new_grid 2 2)) (0, 0) (1, 0) True) (1, 0) (1, 1) True)
       (1, 1) (1, 0) True"

section \<open>Aldous-Broder\<close>

text \<open>
  \<^verbatim>\<open>aldous_broder\<close>. The test \<^verbatim>\<open>linked_cells.get(cell, 1) == 1\<close> compares a cell or the
  integer \<open>1\<close> with \<open>1\<close>. \<open>random_neighbor\<close> is the chain of \<^verbatim>\<open>if\<close> / \<^verbatim>\<open>elif\<close> on the
  draw \<open>r\<close>: the neighbour in the drawn direction, \<open>None\<close> for the final \<^verbatim>\<open>else\<close> (no cell
  in that direction). \<open>ab_again\<close> is the inner loop \<^verbatim>\<open>while(again==True)\<close>, which draws
  directions until one has a neighbour; \<open>ab_loop\<close> is the outer loop. Both may run
  forever: not returning is the value \<open>None\<close>. The result is the grid, the iteration
  count and the position reached in the random stream.
\<close>

definition random_neighbor :: "grid \<Rightarrow> cell \<Rightarrow> int \<Rightarrow> cell option" where
  "random_neighbor g cell r =
     (if r = 1 \<and> north g cell \<noteq> None then north g cell
      else if r = 2 \<and> south g cell \<noteq> None then south g cell
      else if r = 3 \<and> east g cell \<noteq> None then east g cell
      else if r = 4 \<and> west g cell \<noteq> None then west g cell
      else None)"

definition not_linked_yet :: "(cell \<times> cell) list \<Rightarrow> cell \<Rightarrow> bool" where
  "not_linked_yet linked_cells cell =
     py_eq (case map_of linked_cells cell of None \<Rightarrow> PyInt 1 | Some v \<Rightarrow> PyCell v) (PyInt 1)"

definition ab_move :: "grid \<Rightarrow> (cell \<times> cell) list \<Rightarrow> cell \<Rightarrow> cell \<Rightarrow> grid \<times> cell" where
  "ab_move g linked_cells cell n =
     ((if not_linked_yet linked_cells n then link g cell n True else g), n)"

partial_function (option) ab_again ::
  "rnd \<Rightarrow> grid \<Rightarrow> (cell \<times> cell) list \<Rightarrow> cell \<Rightarrow> nat \<Rightarrow> (grid \<times> cell \<times> nat) option" where
  "ab_again rnd g linked_cells cell k =
     (case random_neighbor g cell (randint rnd k 1 4) of
        None \<Rightarrow> ab_again rnd g linked_cells cell (k + 1)
      | Some n \<Rightarrow>
          (case ab_move g linked_cells cell n of (g', next_cell) \<Rightarrow> Some (g', next_cell, k + 1)))"

partial_function (option) ab_loop ::
  "rnd \<Rightarrow> grid \<Rightarrow> (cell \<times> cell) list \<Rightarrow> cell \<Rightarrow> int \<Rightarrow> nat \<Rightarrow> (grid \<times> int \<times> nat) option" where
  "ab_loop rnd g linked_cells next_cell iteration_count k =
     (if \<not> int (length linked_cells) \<le> size_grid g then Some (g, iteration_count, k)
      else if int (length linked_cells) = size_grid g then Some (g, iteration_count + 1, k)
      else
        (let linked_cells' =
               (if not_linked_yet linked_cells next_cell
                then AList.update next_cell next_cell linked_cells else linked_cells)
         in case ab_again rnd g linked_cells' next_cell k of
              None \<Rightarrow> None
            | Some (g', next_cell', k') \<Rightarrow>
                ab_loop rnd g' linked_cells' next_cell' (iteration_count + 1) k'))"

definition aldous_broder :: "rnd \<Rightarrow> grid \<Rightarrow> (grid \<times> int \<times> nat) option" where
  "aldous_broder rnd g =
     (let g' = unlink_all g;
          r1 = randrange rnd 0 (num_rows g');
          r2 = randrange rnd 1 (num_columns g')
      in ab_loop rnd g' [] (r1, r2) 0 2)"

section \<open>Wilson\<close>

text \<open>
  \<^verbatim>\<open>wilson\<close>. \<open>wilson_redo\<close> is the loop \<^verbatim>\<open>while(redo==True)\<close> that appends a random
  neighbour of \<^verbatim>\<open>path[i-1]\<close> (the same chain of tests as in \<^verbatim>\<open>aldous_broder\<close>) and
  counts the draws in \<^verbatim>\<open>random_choices\<close>;
  \<open>erase_loop\<close> is the loop over \<open>t\<close> that cuts the path back to the first occurrence of
  \<^verbatim>\<open>path[i]\<close>, with \<open>del_each\<close> for its inner loop; \<open>hits_visited\<close> is the loop that sets
  \<open>q\<close>; \<open>wilson_walk\<close> is the loop \<^verbatim>\<open>while q==False\<close>; \<open>wilson_commit\<close> is the final
  loop over the path; \<open>wilson_loop\<close> is the outer loop. The result is the grid,
  \<^verbatim>\<open>random_choices\<close>, \<^verbatim>\<open>loops_removed\<close> and the position reached in the random stream,
  or an exception; \<open>None\<close> when a loop runs forever.
\<close>

partial_function (option) wilson_redo ::
  "rnd \<Rightarrow> grid \<Rightarrow> cell list \<Rightarrow> int \<Rightarrow> nat \<Rightarrow> int \<Rightarrow> (error + cell list \<times> nat \<times> int) option" where
  "wilson_redo rnd g path i k random_choices =
     (case py_get path (i - 1) of
        Inl e \<Rightarrow> Some (Inl e)
      | Inr temp \<Rightarrow>
          (case random_neighbor g temp (randint rnd k 1 4) of
             None \<Rightarrow> wilson_redo rnd g path i (k + 1) (random_choices + 1)
           | Some n \<Rightarrow> Some (Inr (path @ [n], k + 1, random_choices + 1))))"

fun del_each :: "'a list \<Rightarrow> int \<Rightarrow> int list \<Rightarrow> error + 'a list" where
  "del_each path idx [] = Inr path"
| "del_each path idx (m # ms) =
     (case py_del path idx of Inl e \<Rightarrow> Inl e | Inr path' \<Rightarrow> del_each path' idx ms)"

fun erase_loop :: "cell list \<Rightarrow> int \<Rightarrow> int \<Rightarrow> int list \<Rightarrow> error + cell list \<times> int \<times> int" where
  "erase_loop path i loops_removed [] = Inr (path, i, loops_removed)"
| "erase_loop path i loops_removed (t # ts) =
     (case py_get path t of
        Inl e \<Rightarrow> Inl e
      | Inr a \<Rightarrow>
          (case py_get path i of
             Inl e \<Rightarrow> Inl e
           | Inr b \<Rightarrow>
               if a = b
               then (case del_each path (t + 1) [t + 1..i] of
                       Inl e \<Rightarrow> Inl e
                     | Inr path' \<Rightarrow> Inr (path', t, loops_removed + 1))
               else erase_loop path i loops_removed ts))"

fun hits_visited :: "cell list \<Rightarrow> int \<Rightarrow> cell list \<Rightarrow> error + bool" where
  "hits_visited path i [] = Inr False"
| "hits_visited path i (item # items) =
     (case py_get path i of
        Inl e \<Rightarrow> Inl e
      | Inr a \<Rightarrow> if a = item then Inr True else hits_visited path i items)"

partial_function (option) wilson_walk ::
  "rnd \<Rightarrow> grid \<Rightarrow> cell list \<Rightarrow> cell list \<Rightarrow> int \<Rightarrow> nat \<Rightarrow> int \<Rightarrow> int \<Rightarrow>
   (error + cell list \<times> nat \<times> int \<times> int) option" where
  "wilson_walk rnd g visited path i k random_choices loops_removed =
     (case wilson_redo rnd g path (i + 1) k random_choices of
        None \<Rightarrow> None
      | Some (Inl e) \<Rightarrow> Some (Inl e)
      | Some (Inr (path1, k1, random_choices1)) \<Rightarrow>
          (case erase_loop path1 (i + 1) loops_removed (py_range (int (length path1))) of
             Inl e \<Rightarrow> Some (Inl e)
           | Inr (path2, i2, loops_removed2) \<Rightarrow>
               (case hits_visited path2 i2 visited of
                  Inl e \<Rightarrow> Some (Inl e)
                | Inr q \<Rightarrow>
                    if q then Some (Inr (path2, k1, random_choices1, loops_removed2))
                    else wilson_walk rnd g visited path2 i2 k1 random_choices1 loops_removed2)))"

fun wilson_commit ::
  "grid \<Rightarrow> cell list \<Rightarrow> cell list \<Rightarrow> cell list \<Rightarrow> int list \<Rightarrow>
   error + grid \<times> cell list \<times> cell list" where
  "wilson_commit g visited unvisited path [] = Inr (g, visited, unvisited)"
| "wilson_commit g visited unvisited path (t # ts) =
     (case py_get path t of
        Inl e \<Rightarrow> Inl e
      | Inr a \<Rightarrow>
          (case py_remove a unvisited of
             Inl e \<Rightarrow> Inl e
           | Inr unvisited' \<Rightarrow>
               (case py_get path (t + 1) of
                  Inl e \<Rightarrow> Inl e
                | Inr b \<Rightarrow> wilson_commit (link g a b True) (visited @ [a]) unvisited' path ts)))"

partial_function (option) wilson_loop ::
  "rnd \<Rightarrow> grid \<Rightarrow> cell list \<Rightarrow> cell list \<Rightarrow> nat \<Rightarrow> int \<Rightarrow> int \<Rightarrow>
   (error + grid \<times> int \<times> int \<times> nat) option" where
  "wilson_loop rnd g visited unvisited k random_choices loops_removed =
     (if \<not> int (length visited) \<le> size_grid g
      then Some (Inr (g, random_choices, loops_removed, k))
      else if int (length visited) = size_grid g
      then Some (Inr (g, random_choices, loops_removed, k))
      else
        (case py_choice rnd k unvisited of
           Inl e \<Rightarrow> Some (Inl e)
         | Inr start \<Rightarrow>
             (case wilson_walk rnd g visited [start] 0 (k + 1) random_choices loops_removed of
                None \<Rightarrow> None
              | Some (Inl e) \<Rightarrow> Some (Inl e)
              | Some (Inr (path, k', random_choices', loops_removed')) \<Rightarrow>
                  (case wilson_commit g visited unvisited path (py_range (int (length path) - 1)) of
                     Inl e \<Rightarrow> Some (Inl e)
                   | Inr (g', visited', unvisited') \<Rightarrow>
                       wilson_loop rnd g' visited' unvisited' k' random_choices' loops_removed'))))"

definition wilson :: "rnd \<Rightarrow> grid \<Rightarrow> (error + grid \<times> int \<times> int \<times> nat) option" where
  "wilson rnd g =
     (let g' = unlink_all g;
          unvisited = each_cell g'
      in case py_choice rnd 0 unvisited of
           Inl e \<Rightarrow> Some (Inl e)
         | Inr a \<Rightarrow>
             (case py_remove a unvisited of
                Inl e \<Rightarrow> Some (Inl e)
              | Inr unvisited' \<Rightarrow> wilson_loop rnd g' [a] unvisited' 1 0 0))"

text \<open>
  For the proof that the binary tree algorithm carves a connected maze, in a grid of \<open>c\<close>
  columns: a cell is \<open>carved\<close> when it is the top right cell or has a passage to its north
  or to its east neighbour, and \<open>uncarved\<close> when it has a passage to each of the two
  that exists.
\<close>

definition carved :: "int \<Rightarrow> grid \<Rightarrow> cell \<Rightarrow> bool" where
  "carved c g x =
     ((fst x = 0 \<and> snd x = c - 1) \<or>
      (fst x \<noteq> 0 \<and> passage g x (fst x - 1, snd x)) \<or>
      (snd x \<noteq> c - 1 \<and> passage g x (fst x, snd x + 1)))"

definition uncarved :: "int \<Rightarrow> grid \<Rightarrow> cell \<Rightarrow> bool" where
  "uncarved c g x =
     ((fst x \<noteq> 0 \<longrightarrow> passage g x (fst x - 1, snd x)) \<and>
      (snd x \<noteq> c - 1 \<longrightarrow> passage g x (fst x, snd x + 1)))"

section \<open>Link tables: the effect of link, unlink and the grid loops\<close>

lemma link_False: "link g a b False = set_link g a b True"
  by (simp add: link.simps)

lemma link_True: "link g a b True = set_link (set_link g a b True) b a True"
  by (simp add: link.simps)

lemma unlink_False: "unlink g a b False = set_link g a b False"
  by (simp add: unlink.simps)

lemma unlink_True: "unlink g a b True = set_link (set_link g a b False) b a False"
  by (simp add: unlink.simps)

lemma set_link_fields [simp]:
  "num_rows (set_link g a b v) = num_rows g"
  "num_columns (set_link g a b v) = num_columns g"
  "north (set_link g a b v) = north g"
  "south (set_link g a b v) = south g"
  "east (set_link g a b v) = east g"
  "west (set_link g a b v) = west g"
  by (simp_all add: set_link_def)

lemma set_link_entry:
  "map_of (links (set_link g a b v) x) y =
     (if x = a \<and> y = b then Some v else map_of (links g x) y)"
  by (simp add: set_link_def update_conv')

lemma set_link_triv: "map_of (links g a) b = Some v \<Longrightarrow> set_link g a b v = g"
  by (simp add: set_link_def update_triv)

lemma set_py_range [simp]: "set (py_range n) = {0..n - 1}"
  by (simp add: py_range_def)

lemma foldl_row_rule:
  assumes step: "\<And>S g j. P S g \<Longrightarrow> j \<in> set js \<Longrightarrow> P (insert (i, j) S) (body g i j)"
    and init: "P S g"
  shows "P (S \<union> Pair i ` set js) (foldl (\<lambda>g j. body g i j) g js)"
  using assms
proof (induction js arbitrary: S g)
  case Nil
  then show ?case by simp
next
  case (Cons j js)
  have "P (insert (i, j) S) (body g i j)"
    using Cons.prems by simp
  then have "P (insert (i, j) S \<union> Pair i ` set js) (foldl (\<lambda>g j. body g i j) (body g i j) js)"
    using Cons.prems(1) by (intro Cons.IH) simp_all
  then show ?case by simp
qed

lemma foldl_rows_rule:
  assumes step: "\<And>S g i j. P S g \<Longrightarrow> i \<in> set is \<Longrightarrow> j \<in> set (js g) \<Longrightarrow> P (insert (i, j) S) (body g i j)"
    and cols: "\<And>S g. P S g \<Longrightarrow> set (js g) = J"
    and init: "P S g"
  shows "P (S \<union> set is \<times> J) (foldl (\<lambda>g i. foldl (\<lambda>g j. body g i j) g (js g)) g is)"
  using assms
proof (induction "is" arbitrary: S g)
  case Nil
  then show ?case by simp
next
  case (Cons i "is")
  have J: "set (js g) = J" using Cons.prems by blast
  have "P (S \<union> Pair i ` set (js g)) (foldl (\<lambda>g j. body g i j) g (js g))"
  proof (rule foldl_row_rule [where P = "\<lambda>S g'. P S g' \<and> set (js g') = J"  and js = "js g", THEN conjunct1])
    show "P S g \<and> set (js g) = J" using Cons.prems J by simp
  next
    fix S g' j assume "P S g' \<and> set (js g') = J" "j \<in> set (js g)"
    then have "P (insert (i, j) S) (body g' i j)"
      using Cons.prems(1) [of S g' i j] J by simp
    then show "P (insert (i, j) S) (body g' i j) \<and> set (js (body g' i j)) = J"
      using Cons.prems(2) by blast
  qed
  then have "P ((S \<union> Pair i ` J) \<union> set is \<times> J)
     (foldl (\<lambda>g i. foldl (\<lambda>g j. body g i j) g (js g)) (foldl (\<lambda>g j. body g i j) g (js g)) is)"
    using Cons.prems(1,2) J by (intro Cons.IH) simp_all
  moreover have "(S \<union> Pair i ` J) \<union> set is \<times> J = S \<union> set (i # is) \<times> J"
    by auto
  ultimately show ?case by simp
qed

lemma for_each_cell_rule:
  assumes step: "\<And>S g i j. P S g \<Longrightarrow> 0 \<le> i \<Longrightarrow> i < r \<Longrightarrow> 0 \<le> j \<Longrightarrow> j < c \<Longrightarrow>
                   P (insert (i, j) S) (body g i j)"
    and dims: "\<And>S g. P S g \<Longrightarrow> num_rows g = r \<and> num_columns g = c"
    and init: "P {} g"
  shows "P ({0..r - 1} \<times> {0..c - 1}) (for_each_cell body g)"
proof -
  have r: "num_rows g = r" using dims init by blast
  have "P ({} \<union> set (py_range r) \<times> {0..c - 1})
     (foldl (\<lambda>g i. foldl (\<lambda>g j. body g i j) g (py_range (num_columns g))) g (py_range r))"
  proof (rule foldl_rows_rule [where P = P])
    show "P {} g" by (rule init)
  next
    fix S g assume "P S g"
    then show "set (py_range (num_columns g)) = {0..c - 1}" using dims by simp
  next
    fix S g i j assume "P S g" "i \<in> set (py_range r)" "j \<in> set (py_range (num_columns g))"
    then show "P (insert (i, j) S) (body g i j)"
      using step [of S g i j] dims [of S g] by simp
  qed
  then show ?thesis by (simp add: for_each_cell_def r)
qed

lemma unlink_fields [simp]:
  "num_rows (unlink g a b d) = num_rows g"
  "num_columns (unlink g a b d) = num_columns g"
  "north (unlink g a b d) = north g"
  "south (unlink g a b d) = south g"
  "east (unlink g a b d) = east g"
  "west (unlink g a b d) = west g"
  by (cases d; simp add: unlink_True unlink_False)+

lemma link_fields [simp]:
  "num_rows (link g a b d) = num_rows g"
  "num_columns (link g a b d) = num_columns g"
  "north (link g a b d) = north g"
  "south (link g a b d) = south g"
  "east (link g a b d) = east g"
  "west (link g a b d) = west g"
  by (cases d; simp add: link_True link_False)+

lemma unlink_entry:
  "map_of (links (unlink g a b d) x) y =
     (if (x = a \<and> y = b) \<or> (d \<and> x = b \<and> y = a) then Some False else map_of (links g x) y)"
  by (cases d; simp only: unlink_True unlink_False set_link_entry)
    (cases "x = a"; cases "y = b"; cases "x = b"; cases "y = a";
      simp only: if_True if_False simp_thms)+

lemma link_entry:
  "map_of (links (link g a b d) x) y =
     (if (x = a \<and> y = b) \<or> (d \<and> x = b \<and> y = a) then Some True else map_of (links g x) y)"
  by (cases d; simp only: link_True link_False set_link_entry)
    (cases "x = a"; cases "y = b"; cases "x = b"; cases "y = a";
      simp only: if_True if_False simp_thms)+

lemma unlink_triv:
  "map_of (links g a) b = Some False \<Longrightarrow> map_of (links g b) a = Some False \<Longrightarrow>
   unlink g a b d = g"
  by (cases d) (simp_all add: unlink_True unlink_False set_link_triv)

lemma cond_unlink_entry:
  "map_of (links (if c then unlink g a b True else g) x) y =
     (if c \<and> ((x = a \<and> y = b) \<or> (x = b \<and> y = a)) then Some False else map_of (links g x) y)"
  by (cases c; simp only: unlink_entry if_True if_False simp_thms)

lemma cond_unlink_fields:
  "num_rows (if c then unlink g a b True else g) = num_rows g"
  "num_columns (if c then unlink g a b True else g) = num_columns g"
  "north (if c then unlink g a b True else g) = north g"
  "south (if c then unlink g a b True else g) = south g"
  "east (if c then unlink g a b True else g) = east g"
  "west (if c then unlink g a b True else g) = west g"
  by (cases c; simp)+

lemma if_chain4:
  "(if A then v else if B then v else if C then v else if D then v else m) =
   (if A \<or> B \<or> C \<or> D then v else m)"
  by simp

lemma if_cong_cond: "P = Q \<Longrightarrow> (if P then v else m) = (if Q then v else m)"
  by simp

lemma unlink_cell_fields [simp]:
  "num_rows (unlink_cell g i j) = num_rows g"
  "num_columns (unlink_cell g i j) = num_columns g"
  "north (unlink_cell g i j) = north g"
  "south (unlink_cell g i j) = south g"
  "east (unlink_cell g i j) = east g"
  "west (unlink_cell g i j) = west g"
  by (simp_all only: unlink_cell_def Let_def cond_unlink_fields)

lemma unlink_cell_entry:
  "map_of (links (unlink_cell g i j) x) y =
     (if (x = (i, j) \<and> geo (num_rows g) (num_columns g) (i, j) y) \<or>
         (y = (i, j) \<and> geo (num_rows g) (num_columns g) (i, j) x)
      then Some False else map_of (links g x) y)"
  unfolding unlink_cell_def Let_def cond_unlink_entry cond_unlink_fields if_chain4 geo_def fst_conv snd_conv
  by (rule if_cong_cond) blast


lemma in_grid_iff: "in_grid r c x \<longleftrightarrow> x \<in> {0..r - 1} \<times> {0..c - 1}"
  by (cases x) (auto simp add: in_grid_def)

lemma geo_sym: "in_grid r c x \<Longrightarrow> geo r c x y \<Longrightarrow> in_grid r c y \<and> geo r c y x"
  unfolding in_grid_def geo_def by (cases x; cases y) (simp; linarith)

lemma for_each_cell_dims:
  assumes "\<And>g i j. num_rows (body g i j) = num_rows g \<and> num_columns (body g i j) = num_columns g"
  shows "num_rows (for_each_cell body g) = num_rows g \<and>
         num_columns (for_each_cell body g) = num_columns g"
proof -
  let ?P = "\<lambda>(S::cell set) (g'::grid). num_rows g' = num_rows g \<and> num_columns g' = num_columns g"
  have "?P ({0..num_rows g - 1} \<times> {0..num_columns g - 1}) (for_each_cell body g)"
    by (rule for_each_cell_rule [where P = ?P]) (simp_all add: assms)
  then show ?thesis .
qed

lemma for_each_cell_entries:
  assumes step: "\<And>g i j x y. map_of (links (body g i j) x) y =
       (if (x = (i, j) \<and> geo (num_rows g) (num_columns g) (i, j) y) \<or>
           (y = (i, j) \<and> geo (num_rows g) (num_columns g) (i, j) x)
        then Some v else map_of (links g x) y)"
    and dims: "\<And>g i j. num_rows (body g i j) = num_rows g \<and> num_columns (body g i j) = num_columns g"
    and r: "num_rows g = r" and c: "num_columns g = c"
  shows "map_of (links (for_each_cell body g) x) y =
       (if in_grid r c x \<and> geo r c x y then Some v else map_of (links g x) y)"
proof -
  let ?P = "\<lambda>S (g'::grid). num_rows g' = r \<and> num_columns g' = c \<and>
     (\<forall>x y. map_of (links g' x) y =
        (if (x \<in> S \<and> geo r c x y) \<or> (y \<in> S \<and> geo r c y x) then Some v
         else map_of (links g x) y))"
  have "?P ({0..r - 1} \<times> {0..c - 1}) (for_each_cell body g)"
  proof (rule for_each_cell_rule [where P = ?P])
    show "?P {} g" using r c by simp
  next
    fix S g' assume "?P S g'"
    then show "num_rows g' = r \<and> num_columns g' = c" by simp
  next
    fix S g' i j
    assume P: "?P S g'"
    have rc: "num_rows g' = r" "num_columns g' = c" using P by simp_all
    have "map_of (links (body g' i j) x) y =
        (if (x \<in> insert (i, j) S \<and> geo r c x y) \<or> (y \<in> insert (i, j) S \<and> geo r c y x) then Some v
         else map_of (links g x) y)" for x y
    proof -
      have E: "map_of (links g' x) y =
        (if (x \<in> S \<and> geo r c x y) \<or> (y \<in> S \<and> geo r c y x) then Some v
         else map_of (links g x) y)"
        using P by blast
      show ?thesis
        unfolding step E rc
        by (cases "x = (i, j)"; cases "y = (i, j)"; cases "x \<in> S"; cases "y \<in> S";
            cases "geo r c x y"; cases "geo r c y x"; simp)
    qed
    then show "?P (insert (i, j) S) (body g' i j)"
      using rc dims by (simp del: split_paired_All)
  qed
  then have "map_of (links (for_each_cell body g) x) y =
        (if (in_grid r c x \<and> geo r c x y) \<or> (in_grid r c y \<and> geo r c y x) then Some v
         else map_of (links g x) y)"
    unfolding in_grid_iff by blast
  moreover have "(in_grid r c x \<and> geo r c x y) \<or> (in_grid r c y \<and> geo r c y x) \<longleftrightarrow>
     in_grid r c x \<and> geo r c x y"
    using geo_sym by blast
  ultimately show ?thesis by (simp only:)
qed

lemma unlink_all_dims [simp]:
  "num_rows (unlink_all g) = num_rows g" "num_columns (unlink_all g) = num_columns g"
  unfolding unlink_all_def by (simp_all add: for_each_cell_dims)

lemma unlink_all_entry:
  "map_of (links (unlink_all g) x) y =
     (if in_grid (num_rows g) (num_columns g) x \<and> geo (num_rows g) (num_columns g) x y
      then Some False else map_of (links g x) y)"
  unfolding unlink_all_def
  by (rule for_each_cell_entries) (simp_all add: unlink_cell_entry)

lemma cond_link_entry:
  "map_of (links (if c then link g a b True else g) x) y =
     (if c \<and> ((x = a \<and> y = b) \<or> (x = b \<and> y = a)) then Some True else map_of (links g x) y)"
  by (cases c; simp only: link_entry if_True if_False simp_thms)

lemma connect_cell_links:
  "links (connect_cell g i j) =
   links (let g1 = (if i \<noteq> num_rows g - 1 then link g (i, j) (i + 1, j) True else g);
          g2 = (if i \<noteq> 0 then link g1 (i, j) (i - 1, j) True else g1);
          g3 = (if j \<noteq> num_columns g - 1 then link g2 (i, j) (i, j + 1) True else g2);
          g4 = (if j \<noteq> 0 then link g3 (i, j) (i, j - 1) True else g3)
      in g4)"
  by (simp add: connect_cell_def Let_def link_True set_link_def)

lemma connect_cell_dims [simp]:
  "num_rows (connect_cell g i j) = num_rows g"
  "num_columns (connect_cell g i j) = num_columns g"
  by (simp_all add: connect_cell_def Let_def)

lemma cond_link_fields:
  "num_rows (if c then link g a b True else g) = num_rows g"
  "num_columns (if c then link g a b True else g) = num_columns g"
  by (cases c; simp)+

lemma connect_cell_entry:
  "map_of (links (connect_cell g i j) x) y =
     (if (x = (i, j) \<and> geo (num_rows g) (num_columns g) (i, j) y) \<or>
         (y = (i, j) \<and> geo (num_rows g) (num_columns g) (i, j) x)
      then Some True else map_of (links g x) y)"
  unfolding connect_cell_links Let_def cond_link_entry cond_link_fields if_chain4 geo_def fst_conv snd_conv
  by (rule if_cong_cond) blast

lemma connect_cell_attrs:
  "north (connect_cell g i j) x = (if x = (i, j) \<and> i \<noteq> 0 then Some (i - 1, j) else north g x)"
  "south (connect_cell g i j) x =
     (if x = (i, j) \<and> i \<noteq> num_rows g - 1 then Some (i + 1, j) else south g x)"
  "east (connect_cell g i j) x =
     (if x = (i, j) \<and> j \<noteq> num_columns g - 1 then Some (i, j + 1) else east g x)"
  "west (connect_cell g i j) x = (if x = (i, j) \<and> j \<noteq> 0 then Some (i, j - 1) else west g x)"
  by (simp_all add: connect_cell_def Let_def)

lemma connect_cells_dims [simp]:
  "num_rows (connect_cells g) = num_rows g" "num_columns (connect_cells g) = num_columns g"
  unfolding connect_cells_def by (simp_all add: for_each_cell_dims)

lemma connect_cells_entry:
  "map_of (links (connect_cells g) x) y =
     (if in_grid (num_rows g) (num_columns g) x \<and> geo (num_rows g) (num_columns g) x y
      then Some True else map_of (links g x) y)"
  unfolding connect_cells_def
  by (rule for_each_cell_entries) (simp_all add: connect_cell_entry)

lemma connect_cells_attrs:
  assumes r: "num_rows g = r" and c: "num_columns g = c"
  shows "north (connect_cells g) x =
     (if in_grid r c x \<and> fst x \<noteq> 0 then Some (fst x - 1, snd x) else north g x)"
    and "south (connect_cells g) x =
     (if in_grid r c x \<and> fst x \<noteq> r - 1 then Some (fst x + 1, snd x) else south g x)"
    and "east (connect_cells g) x =
     (if in_grid r c x \<and> snd x \<noteq> c - 1 then Some (fst x, snd x + 1) else east g x)"
    and "west (connect_cells g) x =
     (if in_grid r c x \<and> snd x \<noteq> 0 then Some (fst x, snd x - 1) else west g x)"
proof -
  let ?P = "\<lambda>S (g'::grid). num_rows g' = r \<and> num_columns g' = c \<and>
     (\<forall>x. north g' x = (if x \<in> S \<and> fst x \<noteq> 0 then Some (fst x - 1, snd x) else north g x)) \<and>
     (\<forall>x. south g' x = (if x \<in> S \<and> fst x \<noteq> r - 1 then Some (fst x + 1, snd x) else south g x)) \<and>
     (\<forall>x. east g' x = (if x \<in> S \<and> snd x \<noteq> c - 1 then Some (fst x, snd x + 1) else east g x)) \<and>
     (\<forall>x. west g' x = (if x \<in> S \<and> snd x \<noteq> 0 then Some (fst x, snd x - 1) else west g x))"
  have "?P ({0..r - 1} \<times> {0..c - 1}) (for_each_cell connect_cell g)"
  proof (rule for_each_cell_rule [where P = ?P])
    show "?P {} g" using r c by simp
  next
    fix S g' assume "?P S g'"
    then show "num_rows g' = r \<and> num_columns g' = c" by simp
  next
    fix S g' i j
    assume P: "?P S g'"
    then show "?P (insert (i, j) S) (connect_cell g' i j)"
      by (simp add: connect_cell_attrs del: split_paired_All) 
  qed
  then show "north (connect_cells g) x =
     (if in_grid r c x \<and> fst x \<noteq> 0 then Some (fst x - 1, snd x) else north g x)"
    and "south (connect_cells g) x =
     (if in_grid r c x \<and> fst x \<noteq> r - 1 then Some (fst x + 1, snd x) else south g x)"
    and "east (connect_cells g) x =
     (if in_grid r c x \<and> snd x \<noteq> c - 1 then Some (fst x, snd x + 1) else east g x)"
    and "west (connect_cells g) x =
     (if in_grid r c x \<and> snd x \<noteq> 0 then Some (fst x, snd x - 1) else west g x)"
    unfolding connect_cells_def in_grid_iff by blast+
qed

lemma unlink_cell_noop:
  assumes P: "\<And>x y. in_grid (num_rows g) (num_columns g) x \<Longrightarrow> geo (num_rows g) (num_columns g) x y \<Longrightarrow>
                 map_of (links g x) y = Some False"
    and ij: "in_grid (num_rows g) (num_columns g) (i, j)"
  shows "unlink_cell g i j = g"
proof -
  have k: "unlink g (i, j) y True = g" if "geo (num_rows g) (num_columns g) (i, j) y" for y
    using P [OF ij that] P [of y "(i, j)"] geo_sym [OF ij that] by (intro unlink_triv) simp_all
  have s1: "(if i \<noteq> num_rows g - 1 then unlink g (i, j) (i + 1, j) True else g) = g"
    by (simp add: k geo_def)
  have s2: "(if i \<noteq> 0 then unlink g (i, j) (i - 1, j) True else g) = g"
    by (simp add: k geo_def)
  have s3: "(if j \<noteq> num_columns g - 1 then unlink g (i, j) (i, j + 1) True else g) = g"
    by (simp add: k geo_def)
  have s4: "(if j \<noteq> 0 then unlink g (i, j) (i, j - 1) True else g) = g"
    by (simp add: k geo_def)
  show ?thesis
    unfolding unlink_cell_def Let_def s1 s2 s3 s4 ..
qed

lemma unlink_all_noop:
  assumes P: "\<And>x y. in_grid (num_rows g) (num_columns g) x \<Longrightarrow> geo (num_rows g) (num_columns g) x y \<Longrightarrow>
                 map_of (links g x) y = Some False"
  shows "unlink_all g = g"
proof -
  let ?P = "\<lambda>(S::cell set) (g'::grid). g' = g"
  have "?P ({0..num_rows g - 1} \<times> {0..num_columns g - 1}) (for_each_cell unlink_cell g)"
  proof (rule for_each_cell_rule [where P = ?P])
    fix S g' i j
    assume "g' = g" "0 \<le> i" "i < num_rows g" "0 \<le> j" "j < num_columns g"
    then show "unlink_cell g' i j = g"
      using unlink_cell_noop [of g i j] P by (simp add: in_grid_def)
  qed simp_all
  then show ?thesis by (simp add: unlink_all_def)
qed

lemma unlink_all_twice: "unlink_all (unlink_all g) = unlink_all g"
  by (rule unlink_all_noop) (simp add: unlink_all_entry)

lemma unlink_all_attrs [simp]:
  "north (unlink_all g) = north g" "south (unlink_all g) = south g"
  "east (unlink_all g) = east g" "west (unlink_all g) = west g"
proof -
  let ?P = "\<lambda>(S::cell set) (g'::grid). num_rows g' = num_rows g \<and> num_columns g' = num_columns g \<and>
     north g' = north g \<and> south g' = south g \<and> east g' = east g \<and> west g' = west g"
  have "?P ({0..num_rows g - 1} \<times> {0..num_columns g - 1}) (for_each_cell unlink_cell g)"
    by (rule for_each_cell_rule [where P = ?P]) simp_all
  then show "north (unlink_all g) = north g" "south (unlink_all g) = south g"
  "east (unlink_all g) = east g" "west (unlink_all g) = west g"
    by (simp_all add: unlink_all_def)
qed

lemma new_grid_dims [simp]: "num_rows (new_grid r c) = r" "num_columns (new_grid r c) = c"
  by (simp_all add: new_grid_def create_cells_def)

lemma new_grid_entry:
  "map_of (links (new_grid r c) x) y = (if in_grid r c x \<and> geo r c x y then Some True else None)"
  by (simp add: new_grid_def connect_cells_entry) (simp add: create_cells_def)

lemma new_grid_attrs:
  "north (new_grid r c) x = (if in_grid r c x \<and> fst x \<noteq> 0 then Some (fst x - 1, snd x) else None)"
  "south (new_grid r c) x = (if in_grid r c x \<and> fst x \<noteq> r - 1 then Some (fst x + 1, snd x) else None)"
  "east (new_grid r c) x = (if in_grid r c x \<and> snd x \<noteq> c - 1 then Some (fst x, snd x + 1) else None)"
  "west (new_grid r c) x = (if in_grid r c x \<and> snd x \<noteq> 0 then Some (fst x, snd x - 1) else None)"
proof -
  have d: "num_rows (create_cells r c) = r" "num_columns (create_cells r c) = c"
    by (simp_all add: create_cells_def)
  note a = connect_cells_attrs [OF d, of x]
  show "north (new_grid r c) x = (if in_grid r c x \<and> fst x \<noteq> 0 then Some (fst x - 1, snd x) else None)"
    unfolding new_grid_def a(1) by (simp add: create_cells_def)
  show "south (new_grid r c) x = (if in_grid r c x \<and> fst x \<noteq> r - 1 then Some (fst x + 1, snd x) else None)"
    unfolding new_grid_def a(2) by (simp add: create_cells_def)
  show "east (new_grid r c) x = (if in_grid r c x \<and> snd x \<noteq> c - 1 then Some (fst x, snd x + 1) else None)"
    unfolding new_grid_def a(3) by (simp add: create_cells_def)
  show "west (new_grid r c) x = (if in_grid r c x \<and> snd x \<noteq> 0 then Some (fst x, snd x - 1) else None)"
    unfolding new_grid_def a(4) by (simp add: create_cells_def)
qed

lemma new_grid_neighbors:
  "y \<in> set (neighbors (new_grid r c) x) \<longleftrightarrow> in_grid r c x \<and> geo r c x y"
proof (cases "in_grid r c x")
  case True
  then show ?thesis
    unfolding neighbors_def new_grid_attrs geo_def
    by (cases "fst x = 0"; cases "fst x = r - 1"; cases "snd x = 0"; cases "snd x = c - 1")
       (simp_all, blast+)
next
  case False
  then show ?thesis
    by (simp add: neighbors_def new_grid_attrs)
qed

text \<open>
  Claim C6. For every freshly constructed grid, calling \<^verbatim>\<open>unlink_all()\<close> a second time
  leaves the state (the link tables, in their order, and every other field) as the first
  call left it; in that state \<^verbatim>\<open>is_linked\<close> is \<^verbatim>\<open>False\<close> for every cell and each of
  its geographic neighbours, and no link table holds \<^verbatim>\<open>True\<close> at all.
\<close>

theorem unlink_all_idempotent:
  assumes "Grid r c = Inr g"
  shows "unlink_all (unlink_all g) = unlink_all g \<and>
         (\<forall>a b. b \<in> set (neighbors (unlink_all g) a) \<longrightarrow> is_linked (unlink_all g) a b = Inr False) \<and>
         (\<forall>a b. is_linked (unlink_all g) a b \<noteq> Inr True)"
proof -
  have g: "g = new_grid r c"
    using assms by (simp add: Grid_def new_grid_def split: if_splits)
  have "is_linked (unlink_all g) a b = Inr False" if "b \<in> set (neighbors (unlink_all g) a)" for a b
    using that by (simp add: neighbors_def [of "unlink_all g"] neighbors_def [symmetric, of g])
       (simp add: g new_grid_neighbors is_linked_def unlink_all_entry)
  moreover have "is_linked (unlink_all g) a b \<noteq> Inr True" for a b
    by (simp add: g is_linked_def unlink_all_entry new_grid_entry)
  ultimately show ?thesis
    using unlink_all_twice by blast
qed

theorem unlink_all_idempotent_witness:
  "Grid 2 2 = Inr (new_grid 2 2) \<and>
   unlink_all (unlink_all (new_grid 2 2)) = unlink_all (new_grid 2 2) \<and>
   (0, 1) \<in> set (neighbors (unlink_all (new_grid 2 2)) (0, 0)) \<and>
   is_linked (unlink_all (new_grid 2 2)) (0, 0) (0, 1) = Inr False \<and>
   is_linked (unlink_all (new_grid 2 2)) (0, 0) (1, 1) \<noteq> Inr True"
proof -
  have h: "Grid 2 2 = Inr (new_grid 2 2)"
    by (simp add: Grid_def)
  have n: "(0, 1) \<in> set (neighbors (unlink_all (new_grid 2 2)) (0, 0))"
    by (simp add: neighbors_def new_grid_attrs in_grid_def)
  from unlink_all_idempotent [OF h] h n show ?thesis
    by blast
qed

section \<open>link_count and deadends\<close>

lemma link_count_zero: "link_count g self = 0"
proof -
  have "foldl (\<lambda>i item. if py_eq (PyCell item) (PyBool True) then i + 1 else i) n ks = n"
    for n :: int and ks
    by (induction ks arbitrary: n) simp_all
  then show ?thesis by (simp add: link_count_def)
qed

lemma new_grid_1_2_links:
  "links (new_grid 1 2) (0, 0) = [((0, 1), True)]"
  "links (new_grid 1 2) (0, 1) = [((0, 0), True)]"
  by code_simp+

text \<open>
  Claim C2. \<^verbatim>\<open>link_count\<close> compares the keys of the link table, which are cells, with
  \<^verbatim>\<open>True\<close>, so it counts nothing. On the grid \<^verbatim>\<open>Grid(1, 2)\<close> the cell \<open>(0, 0)\<close> has the
  single entry \<open>(0, 1) \<mapsto> True\<close>, it is linked to \<open>(0, 1)\<close>, and \<^verbatim>\<open>link_count()\<close>
  returns \<open>0\<close> where the claim says \<open>1\<close>.
\<close>

theorem link_count_failing_input:
  "Grid 1 2 = Inr (new_grid 1 2) \<and>
   links (new_grid 1 2) (0, 0) = [((0, 1), True)] \<and>
   is_linked (new_grid 1 2) (0, 0) (0, 1) = Inr True \<and>
   link_count (new_grid 1 2) (0, 0) = 0"
  by (simp add: Grid_def new_grid_1_2_links is_linked_def link_count_zero)

lemma deadends_raises:
  assumes "0 < num_rows g"
  shows "deadends g = Inl AttributeError"
proof -
  have "py_range (num_rows g) = 0 # [1..num_rows g - 1]"
    using assms by (simp add: py_range_def upto_rec1)
  then show ?thesis
    by (simp add: deadends_def grid_rows_def)
qed

text \<open>
  Claim C3. On the grid \<^verbatim>\<open>Grid(1, 2)\<close> each of the two cells has exactly one entry, and
  it is \<^verbatim>\<open>True\<close>, so both are dead ends; \<^verbatim>\<open>deadends()\<close> raises \<^verbatim>\<open>AttributeError\<close>
  at the first row of the grid instead of returning them.
\<close>

theorem deadends_failing_input:
  "Grid 1 2 = Inr (new_grid 1 2) \<and>
   links (new_grid 1 2) (0, 0) = [((0, 1), True)] \<and>
   links (new_grid 1 2) (0, 1) = [((0, 0), True)] \<and>
   deadends (new_grid 1 2) = Inl AttributeError"
  by (simp add: Grid_def new_grid_1_2_links deadends_raises)

section \<open>Lookup errors and symmetry of the link tables\<close>

text \<open>A call writes exactly the entries of its invocations, in their order.\<close>

lemma run_call_writes:
  "run_call g (Link a b d) =
     foldl (\<lambda>g (s, t). set_link g s t True) g (invocations (Link a b d))"
  "run_call g (Unlink a b d) =
     foldl (\<lambda>g (s, t). set_link g s t False) g (invocations (Unlink a b d))"
  by (cases d; simp add: link_True link_False unlink_True unlink_False)+

lemma run_call_entry_None:
  "map_of (links (run_call g c) a) b = None \<longleftrightarrow>
     map_of (links g a) b = None \<and> (a, b) \<notin> set (invocations c)"
proof (cases c)
  case (Link s t d)
  show ?thesis
    unfolding Link run_call.simps link_entry
    by (cases d; cases "a = s"; cases "b = t"; cases "a = t"; cases "b = s") simp_all
next
  case (Unlink s t d)
  show ?thesis
    unfolding Unlink run_call.simps unlink_entry
    by (cases d; cases "a = s"; cases "b = t"; cases "a = t"; cases "b = s") simp_all
qed

lemma run_calls_entry_None:
  "map_of (links (run_calls g cs) a) b = None \<longleftrightarrow>
     map_of (links g a) b = None \<and> (a, b) \<notin> set (concat (map invocations cs))"
  unfolding run_calls_def
proof (induction cs arbitrary: g)
  case Nil
  show ?case by simp
next
  case (Cons c cs)
  show ?case
    using Cons.IH [of "run_call g c"] run_call_entry_None [of g c a b] by auto
qed

lemma is_linked_KeyError: "is_linked g a b = Inl KeyError \<longleftrightarrow> map_of (links g a) b = None"
  by (simp add: is_linked_def split: option.splits)

text \<open>
  Claim C5. Starting from freshly created cells, \<^verbatim>\<open>a.is_linked(b)\<close> raises
  \<^verbatim>\<open>KeyError\<close> exactly when no invocation of \<^verbatim>\<open>link\<close> or \<^verbatim>\<open>unlink\<close> on \<open>a\<close> was
  passed \<open>b\<close>, which is exactly when the table of \<open>a\<close> has no entry for \<open>b\<close>; after
  \<^verbatim>\<open>a.unlink(b)\<close> the entry is there with value \<^verbatim>\<open>False\<close> and \<^verbatim>\<open>a.is_linked(b)\<close>
  returns \<^verbatim>\<open>False\<close>.
\<close>

theorem is_linked_raises_iff_never_passed:
  "(is_linked (run_calls (create_cells r c) cs) a b = Inl KeyError \<longleftrightarrow>
      (a, b) \<notin> set (concat (map invocations cs))) \<and>
   (is_linked g a b = Inl KeyError \<longleftrightarrow> map_of (links g a) b = None) \<and>
   is_linked (unlink g a b d) a b = Inr False \<and>
   map_of (links (unlink g a b d) a) b = Some False"
proof -
  have "map_of (links (create_cells r c) a) b = None"
    by (simp add: create_cells_def)
  then have "is_linked (run_calls (create_cells r c) cs) a b = Inl KeyError \<longleftrightarrow>
      (a, b) \<notin> set (concat (map invocations cs))"
    by (simp only: is_linked_KeyError run_calls_entry_None simp_thms)
  moreover have "map_of (links (unlink g a b d) a) b = Some False"
    by (simp only: unlink_entry simp_thms if_True)
  moreover from this have "is_linked (unlink g a b d) a b = Inr False"
    by (simp add: is_linked_def)
  ultimately show ?thesis
    using is_linked_KeyError by blast
qed

lemma run_call_symmetric:
  assumes "symmetric_links g" "is_bidirectional c"
  shows "symmetric_links (run_call g c)"
proof (cases c)
  case (Link s t d)
  have g: "map_of (links g a) b = map_of (links g b) a" for a b
    using assms(1) unfolding symmetric_links_def by blast
  have d using assms(2) Link by simp
  show ?thesis
    unfolding symmetric_links_def Link run_call.simps link_entry
  proof (intro allI)
    fix a b
    show "(if a = s \<and> b = t \<or> d \<and> a = t \<and> b = s then Some True else map_of (links g a) b) =
          (if b = s \<and> a = t \<or> d \<and> b = t \<and> a = s then Some True else map_of (links g b) a)"
      using \<open>d\<close> g [of a b]
      by (cases "a = s"; cases "b = t"; cases "a = t"; cases "b = s") simp_all
  qed
next
  case (Unlink s t d)
  have g: "map_of (links g a) b = map_of (links g b) a" for a b
    using assms(1) unfolding symmetric_links_def by blast
  have d using assms(2) Unlink by simp
  show ?thesis
    unfolding symmetric_links_def Unlink run_call.simps unlink_entry
  proof (intro allI)
    fix a b
    show "(if a = s \<and> b = t \<or> d \<and> a = t \<and> b = s then Some False else map_of (links g a) b) =
          (if b = s \<and> a = t \<or> d \<and> b = t \<and> a = s then Some False else map_of (links g b) a)"
      using \<open>d\<close> g [of a b]
      by (cases "a = s"; cases "b = t"; cases "a = t"; cases "b = s") simp_all
  qed
qed

lemma run_calls_symmetric:
  assumes "symmetric_links g" "\<forall>c \<in> set cs. is_bidirectional c"
  shows "symmetric_links (run_calls g cs)"
  using assms unfolding run_calls_def
  by (induction cs arbitrary: g) (simp_all add: run_call_symmetric)

lemma new_grid_symmetric: "symmetric_links (new_grid r c)"
  unfolding symmetric_links_def new_grid_entry
  using geo_sym by metis

text \<open>
  Claim C4, amended. For all cells \<open>a\<close> and \<open>b\<close> of a grid and after every sequence of
  \<^verbatim>\<open>link\<close> and \<^verbatim>\<open>unlink\<close> calls that leave \<^verbatim>\<open>bidirectional\<close> at its default
  \<^verbatim>\<open>True\<close>, \<^verbatim>\<open>a.is_linked(b)\<close> and \<^verbatim>\<open>b.is_linked(a)\<close> agree (both raise or both
  return the same boolean), and the two tables hold the same entry for each other.
\<close>

theorem link_symmetry_bidirectional:
  assumes "Grid r c = Inr g" and "\<forall>c \<in> set cs. is_bidirectional c"
  shows "is_linked (run_calls g cs) a b = is_linked (run_calls g cs) b a \<and>
         map_of (links (run_calls g cs) a) b = map_of (links (run_calls g cs) b) a"
proof -
  have "g = new_grid r c"
    using assms(1) by (simp add: Grid_def split: if_splits)
  then have "symmetric_links (run_calls g cs)"
    using assms(2) by (simp add: run_calls_symmetric new_grid_symmetric)
  then have "map_of (links (run_calls g cs) a) b = map_of (links (run_calls g cs) b) a"
    unfolding symmetric_links_def by blast
  then show ?thesis
    by (simp add: is_linked_def)
qed

theorem link_symmetry_bidirectional_witness:
  "Grid 2 2 = Inr (new_grid 2 2) \<and>
   is_bidirectional (Unlink (0, 0) (0, 1) True) \<and> is_bidirectional (Link (1, 1) (0, 0) True) \<and>
   is_linked (run_calls (new_grid 2 2) [Unlink (0, 0) (0, 1) True, Link (1, 1) (0, 0) True]) (0, 0) (1, 1) =
   is_linked (run_calls (new_grid 2 2) [Unlink (0, 0) (0, 1) True, Link (1, 1) (0, 0) True]) (1, 1) (0, 0)"
proof -
  have h: "Grid 2 2 = Inr (new_grid 2 2)"
    by (simp add: Grid_def)
  have b: "\<forall>c \<in> set [Unlink (0, 0) (0, 1) True, Link (1, 1) (0, 0) True]. is_bidirectional c"
    by simp
  from link_symmetry_bidirectional [OF h b] h show ?thesis
    by simp
qed

text \<open>
  Claim C4 as stated fails for a call with \<^verbatim>\<open>bidirectional=False\<close>: after
  \<^verbatim>\<open>a.unlink(b, bidirectional=False)\<close> on a fresh \<^verbatim>\<open>Grid(1, 2)\<close>, \<^verbatim>\<open>a.is_linked(b)\<close> is
  \<^verbatim>\<open>False\<close> and \<^verbatim>\<open>b.is_linked(a)\<close> is \<^verbatim>\<open>True\<close>.
\<close>

theorem link_symmetry_counterexample:
  "Grid 1 2 = Inr (new_grid 1 2) \<and>
   is_linked (run_calls (new_grid 1 2) [Unlink (0, 0) (0, 1) False]) (0, 0) (0, 1) = Inr False \<and>
   is_linked (run_calls (new_grid 1 2) [Unlink (0, 0) (0, 1) False]) (0, 1) (0, 0) = Inr True"
  by (simp add: Grid_def run_calls_def is_linked_def unlink_entry new_grid_entry in_grid_def geo_def)

section \<open>Colorization: division by zero and the choice of the root\<close>

lemma each_cell_nonempty:
  assumes "0 < num_rows g" "0 < num_columns g"
  shows "each_cell g = (0, 0) # tl (each_cell g)"
proof -
  have "py_range (num_rows g) = 0 # [1..num_rows g - 1]"
       "py_range (num_columns g) = 0 # [1..num_columns g - 1]"
    using assms by (simp_all add: py_range_def upto_rec1)
  then show ?thesis by (simp add: each_cell_def)
qed

lemma intensity_colorize_zero:
  assumes "0 < num_rows (cm_grid self)" "0 < num_columns (cm_grid self)"
    and "markup_max markup = Inr mx" "markup_getitem markup mx = 0"
  shows "intensity_colorize ops self markup = Inl ZeroDivisionError"
proof -
  obtain cs where cs: "each_cell (cm_grid self) = (0, 0) # cs"
    using each_cell_nonempty [OF assms(1,2)] by blast
  have "colorize_cell ops markup 0 self (0, 0) = Inl ZeroDivisionError"
    by (simp add: colorize_cell_def)
  then have "colorize_loop ops markup 0 self ((0, 0) # cs) = Inl ZeroDivisionError"
    by simp
  then show ?thesis
    using assms(3,4) by (simp add: intensity_colorize_def cs)
qed

text \<open>
  Claim C9. On a \<open>1 \<times> 1\<close> grid with the markup that gives its only cell the distance
  \<open>0\<close>, all cells share one value, the maximum is \<open>0\<close>, and \<^verbatim>\<open>intensity_colorize\<close> raises
  \<^verbatim>\<open>ZeroDivisionError\<close>, whatever the floating-point operations do: the division is not
  guarded.
\<close>

theorem intensity_colorize_failing_input:
  "Grid 1 1 = Inr (new_grid 1 1) \<and>
   markup_max \<lparr>marks = [((0, 0), 0)], default_mark = 0\<rparr> = Inr (0, 0) \<and>
   intensity_colorize ops \<lparr>cm_grid = new_grid 1 1, channel = ''R'', cm_marks = []\<rparr>
     \<lparr>marks = [((0, 0), 0)], default_mark = 0\<rparr> = Inl ZeroDivisionError"
proof -
  have m: "markup_max \<lparr>marks = [((0, 0), 0)], default_mark = 0\<rparr> = Inr (0, 0)"
    by (simp add: markup_max_def)
  have "intensity_colorize ops \<lparr>cm_grid = new_grid 1 1, channel = ''R'', cm_marks = []\<rparr>
     \<lparr>marks = [((0, 0), 0)], default_mark = 0\<rparr> = Inl ZeroDivisionError"
    by (rule intensity_colorize_zero [OF _ _ m]) (simp_all add: markup_getitem_def)
  with m show ?thesis by (simp add: Grid_def)
qed








section \<open>Binary tree: the top row and the last column\<close>

lemma links_set_link:
  "links (set_link g a b v) z = (if z = a then AList.update b v (links g a) else links g z)"
  by (simp add: set_link_def)

lemma link_triv:
  "map_of (links g a) b = Some True \<Longrightarrow> map_of (links g b) a = Some True \<Longrightarrow>
   link g a b d = g"
  by (cases d) (simp_all add: link_True link_False set_link_triv)

lemma links_link_other:
  "z \<noteq> a \<Longrightarrow> z \<noteq> b \<Longrightarrow> links (link g a b d) z = links g z"
  by (cases d) (simp_all add: link_True link_False links_set_link)

lemma links_unlink_other:
  "z \<noteq> a \<Longrightarrow> z \<noteq> b \<Longrightarrow> links (unlink g a b d) z = links g z"
  by (cases d) (simp_all add: unlink_True unlink_False links_set_link)

lemma binary_tree_cell_fields [simp]:
  "num_rows (fst (binary_tree_cell rnd s i j)) = num_rows (fst s)"
  "num_columns (fst (binary_tree_cell rnd s i j)) = num_columns (fst s)"
  "north (fst (binary_tree_cell rnd s i j)) = north (fst s)"
  "south (fst (binary_tree_cell rnd s i j)) = south (fst s)"
  "east (fst (binary_tree_cell rnd s i j)) = east (fst s)"
  "west (fst (binary_tree_cell rnd s i j)) = west (fst s)"
  by (simp_all add: binary_tree_cell_def Let_def)

lemma binary_tree_cell_keeps:
  assumes "map_of (links (fst s) x) y = Some True"
    and "\<not> (i \<noteq> 0 \<and> j \<noteq> num_columns (fst s) - 1 \<and>
            (is_pair x y (i, j) (i, j + 1) \<or> is_pair x y (i, j) (i - 1, j)))"
  shows "map_of (links (fst (binary_tree_cell rnd s i j)) x) y = Some True"
proof -
  consider (corner) "i = 0 \<and> j = num_columns (fst s) - 1"
    | (top) "i = 0" "j \<noteq> num_columns (fst s) - 1"
    | (right) "i \<noteq> 0" "j = num_columns (fst s) - 1"
    | (inner) "i \<noteq> 0" "j \<noteq> num_columns (fst s) - 1"
    by blast
  then show ?thesis
  proof cases
    case corner
    then show ?thesis using assms(1) by (simp add: binary_tree_cell_def)
  next
    case top
    then show ?thesis using assms(1)
      by (simp add: binary_tree_cell_def Let_def link_entry)
  next
    case right
    then show ?thesis using assms(1)
      by (simp add: binary_tree_cell_def Let_def link_entry)
  next
    case inner
    then have np: "\<not> is_pair x y (i, j) (i, j + 1)" "\<not> is_pair x y (i, j) (i - 1, j)"
      using assms(2) by blast+
    have a: "map_of (links (unlink g' (i, j) (i, j + 1) True) x) y = map_of (links g' x) y" for g'
      using np(1) unfolding unlink_entry is_pair_def by (simp only: simp_thms if_False)
    have b: "map_of (links (unlink g' (i, j) (i - 1, j) True) x) y = map_of (links g' x) y" for g'
      using np(2) unfolding unlink_entry is_pair_def by (simp only: simp_thms if_False)
    show ?thesis
      using inner assms(1) by (simp add: binary_tree_cell_def Let_def a b)
  qed
qed

lemma binary_tree_cell_table:
  assumes "num_columns (fst s) = c"
    and "links (fst s) (0, c - 1) = l"
    and "1 < c \<Longrightarrow> map_of l (0, c - 2) = Some True \<and> map_of (links (fst s) (0, c - 2)) (0, c - 1) = Some True"
    and "1 < num_rows (fst s) \<Longrightarrow> map_of l (1, c - 1) = Some True \<and> map_of (links (fst s) (1, c - 1)) (0, c - 1) = Some True"
    and "0 \<le> i" "i < num_rows (fst s)" "0 \<le> j" "j < c"
  shows "links (fst (binary_tree_cell rnd s i j)) (0, c - 1) = l"
proof -
  consider (corner) "i = 0 \<and> j = c - 1"
    | (top) "i = 0" "j \<noteq> c - 1"
    | (right) "i \<noteq> 0" "j = c - 1"
    | (inner) "i \<noteq> 0" "j \<noteq> c - 1"
    by blast
  then show ?thesis
  proof cases
    case corner
    then show ?thesis using assms(1,2) by (simp add: binary_tree_cell_def)
  next
    case top
    show ?thesis
    proof (cases "j = c - 2")
      case True
      then have "1 < c" using assms(7) by simp
      then have "link (fst s) (0, c - 2) (0, c - 2 + 1) True = fst s"
        using assms(2,3) by (intro link_triv) simp_all
      then show ?thesis
        using top True assms(1,2) by (simp add: binary_tree_cell_def Let_def)
    next
      case False
      then show ?thesis
        using top assms(1,2) by (simp add: binary_tree_cell_def Let_def links_link_other)
    qed
  next
    case right
    show ?thesis
    proof (cases "i = 1")
      case True
      then have "1 < num_rows (fst s)" using assms(6) by simp
      then have "link (fst s) (1, c - 1) (1 - 1, c - 1) True = fst s"
        using assms(2,4) by (intro link_triv) simp_all
      then show ?thesis
        using right True assms(1,2) by (simp add: binary_tree_cell_def Let_def)
    next
      case False
      then show ?thesis
        using right assms(1,2) by (simp add: binary_tree_cell_def Let_def links_link_other)
    qed
  next
    case inner
    then show ?thesis
      using assms(1,2) by (simp add: binary_tree_cell_def Let_def links_unlink_other)
  qed
qed


lemma protected_geo: "protected r c x y \<Longrightarrow> in_grid r c x \<and> geo r c x y"
  unfolding protected_def in_grid_def geo_def
  by (cases x; cases y) (simp; linarith)

lemma protected_not_random:
  assumes "protected r c x y" "i \<noteq> 0" "j \<noteq> c - 1"
  shows "\<not> is_pair x y (i, j) (i, j + 1)" "\<not> is_pair x y (i, j) (i - 1, j)"
  using assms unfolding protected_def is_pair_def
  by (cases x; cases y; simp; linarith)+

lemma binary_tree_invariant:
  fixes g :: grid
  assumes r: "num_rows g = r" and c: "num_columns g = c" and pos: "0 < r" "0 < c"
    and prot: "\<And>x y. protected r c x y \<Longrightarrow> map_of (links g x) y = Some True"
  shows "num_rows (binary_tree rnd g) = r \<and> num_columns (binary_tree rnd g) = c \<and>
         north (binary_tree rnd g) = north g \<and> south (binary_tree rnd g) = south g \<and>
         east (binary_tree rnd g) = east g \<and> west (binary_tree rnd g) = west g \<and>
         (\<forall>x y. protected r c x y \<longrightarrow> map_of (links (binary_tree rnd g) x) y = Some True) \<and>
         links (binary_tree rnd g) (0, c - 1) = links g (0, c - 1)"
proof -
  let ?I = "\<lambda>(S :: cell set) (s :: grid \<times> nat).
     num_rows (fst s) = r \<and> num_columns (fst s) = c \<and>
     north (fst s) = north g \<and> south (fst s) = south g \<and>
     east (fst s) = east g \<and> west (fst s) = west g \<and>
     (\<forall>x y. protected r c x y \<longrightarrow> map_of (links (fst s) x) y = Some True) \<and>
     links (fst s) (0, c - 1) = links g (0, c - 1)"
  have "?I ({} \<union> set (rev (py_range r)) \<times> {0..c - 1})
     (foldl (\<lambda>s i. foldl (\<lambda>s j. binary_tree_cell rnd s i j) s (py_range (num_columns (fst s))))
        (g, 0) (rev (py_range r)))"
  proof (rule foldl_rows_rule [where P = ?I])
    show "?I {} (g, 0)"
      using r c prot by simp
  next
    fix S s assume "?I S s"
    then show "set (py_range (num_columns (fst s))) = {0..c - 1}"
      by simp
  next
    fix S s i j
    assume I: "?I S s" and i: "i \<in> set (rev (py_range r))"
      and j: "j \<in> set (py_range (num_columns (fst s)))"
    have d: "num_rows (fst s) = r" "num_columns (fst s) = c"
      using I by simp_all
    have ij: "0 \<le> i" "i < r" "0 \<le> j" "j < c"
      using i j d by simp_all
    have p: "map_of (links (fst s) x) y = Some True" if "protected r c x y" for x y
      using I that by blast
    have keep: "map_of (links (fst (binary_tree_cell rnd s i j)) x) y = Some True"
      if "protected r c x y" for x y
      using protected_not_random [OF that, of i j] p [OF that] d
      by (intro binary_tree_cell_keeps) auto
    have l: "links (fst s) (0, c - 1) = links g (0, c - 1)"
      using I by simp
    have west: "map_of (links g (0, c - 1)) (0, c - 2) = Some True \<and>
                map_of (links (fst s) (0, c - 2)) (0, c - 1) = Some True" if "1 < c"
      using that pos p [of "(0, c - 1)" "(0, c - 2)"] p [of "(0, c - 2)" "(0, c - 1)"] l
      by (simp add: protected_def in_grid_def)
    have south: "map_of (links g (0, c - 1)) (1, c - 1) = Some True \<and>
                map_of (links (fst s) (1, c - 1)) (0, c - 1) = Some True" if "1 < num_rows (fst s)"
      using that pos d p [of "(0, c - 1)" "(1, c - 1)"] p [of "(1, c - 1)" "(0, c - 1)"] l
      by (simp add: protected_def in_grid_def)
    have table: "links (fst (binary_tree_cell rnd s i j)) (0, c - 1) = links g (0, c - 1)"
      using ij d by (intro binary_tree_cell_table [OF d(2) l west south]) simp_all
    show "?I (insert (i, j) S) (binary_tree_cell rnd s i j)"
      using I keep table by (simp del: split_paired_All)
  qed
  then show ?thesis
    by (simp add: binary_tree_def r del: split_paired_All)
qed

lemma binary_tree_new_grid:
  assumes "0 < r" "0 < c"
  shows "north (binary_tree rnd (new_grid r c)) = north (new_grid r c) \<and>
         east (binary_tree rnd (new_grid r c)) = east (new_grid r c) \<and>
         (\<forall>x y. protected r c x y \<longrightarrow>
            map_of (links (binary_tree rnd (new_grid r c)) x) y = Some True) \<and>
         links (binary_tree rnd (new_grid r c)) (0, c - 1) = links (new_grid r c) (0, c - 1)"
  using binary_tree_invariant [of "new_grid r c" r c rnd] assms protected_geo
  by (simp add: new_grid_entry del: split_paired_All)

lemma new_grid_4_4_corner:
  "map_of (links (new_grid 4 4) (0, 3)) = [(0, 2) \<mapsto> True, (1, 3) \<mapsto> True]"
proof
  fix y :: cell
  show "map_of (links (new_grid 4 4) (0, 3)) y = [(0, 2) \<mapsto> True, (1, 3) \<mapsto> True] y"
    unfolding new_grid_entry
    by (cases y) (simp add: in_grid_def geo_def)
qed

text \<open>
  Claim C7, amended. For every sequence of random choices, after \<^verbatim>\<open>binary_tree\<close> on a
  \<open>4 \<times> 4\<close> grid: the cell at \<open>(0, 3)\<close> has no north and no east neighbour, and its link
  table holds exactly two entries, \<^verbatim>\<open>True\<close> for its west neighbour \<open>(0, 2)\<close> and \<^verbatim>\<open>True\<close>
  for its south neighbour \<open>(1, 3)\<close>; every other cell of row \<open>0\<close> has no north neighbour
  and is linked to its east neighbour; every other cell of column \<open>3\<close> has no east
  neighbour and is linked to its north neighbour.
\<close>

theorem binary_tree_4x4:
  "north (binary_tree rnd (new_grid 4 4)) (0, 3) = None \<and>
   east (binary_tree rnd (new_grid 4 4)) (0, 3) = None \<and>
   map_of (links (binary_tree rnd (new_grid 4 4)) (0, 3)) = [(0, 2) \<mapsto> True, (1, 3) \<mapsto> True] \<and>
   north (binary_tree rnd (new_grid 4 4)) (0, 0) = None \<and>
   north (binary_tree rnd (new_grid 4 4)) (0, 1) = None \<and>
   north (binary_tree rnd (new_grid 4 4)) (0, 2) = None \<and>
   is_linked (binary_tree rnd (new_grid 4 4)) (0, 0) (0, 1) = Inr True \<and>
   is_linked (binary_tree rnd (new_grid 4 4)) (0, 1) (0, 2) = Inr True \<and>
   is_linked (binary_tree rnd (new_grid 4 4)) (0, 2) (0, 3) = Inr True \<and>
   east (binary_tree rnd (new_grid 4 4)) (1, 3) = None \<and>
   east (binary_tree rnd (new_grid 4 4)) (2, 3) = None \<and>
   east (binary_tree rnd (new_grid 4 4)) (3, 3) = None \<and>
   is_linked (binary_tree rnd (new_grid 4 4)) (1, 3) (0, 3) = Inr True \<and>
   is_linked (binary_tree rnd (new_grid 4 4)) (2, 3) (1, 3) = Inr True \<and>
   is_linked (binary_tree rnd (new_grid 4 4)) (3, 3) (2, 3) = Inr True"
proof -
  have b: "north (binary_tree rnd (new_grid 4 4)) = north (new_grid 4 4) \<and>
         east (binary_tree rnd (new_grid 4 4)) = east (new_grid 4 4) \<and>
         (\<forall>x y. protected 4 4 x y \<longrightarrow>
            map_of (links (binary_tree rnd (new_grid 4 4)) x) y = Some True) \<and>
         links (binary_tree rnd (new_grid 4 4)) (0, 4 - 1) = links (new_grid 4 4) (0, 4 - 1)"
    by (rule binary_tree_new_grid) simp_all
  have n: "north (binary_tree rnd (new_grid 4 4)) = north (new_grid 4 4)"
    and e: "east (binary_tree rnd (new_grid 4 4)) = east (new_grid 4 4)"
    and l: "links (binary_tree rnd (new_grid 4 4)) (0, 3) = links (new_grid 4 4) (0, 3)"
    using b by (simp_all del: split_paired_All)
  have "map_of (links (binary_tree rnd (new_grid 4 4)) x) y = Some True" if "protected 4 4 x y" for x y
    using b that by blast
  then have p: "is_linked (binary_tree rnd (new_grid 4 4)) x y = Inr True" if "protected 4 4 x y" for x y
    using that by (simp add: is_linked_def)
  show ?thesis
    unfolding n e l new_grid_4_4_corner
    by (simp add: new_grid_attrs in_grid_def p protected_def)
qed

text \<open>
  Claim C7 as stated fails, whatever the random choices; here they are all \<open>0\<close>. The cell
  \<open>(0, 3)\<close> has two \<^verbatim>\<open>True\<close> entries, the cell \<open>(0, 1)\<close> of row \<open>0\<close> is linked to its west
  neighbour, and the cell \<open>(1, 3)\<close> of column \<open>3\<close> is linked to its south neighbour.
\<close>

theorem binary_tree_4x4_counterexample:
  "is_linked (binary_tree (rnd_of_list []) (new_grid 4 4)) (0, 3) (0, 2) = Inr True \<and>
   is_linked (binary_tree (rnd_of_list []) (new_grid 4 4)) (0, 3) (1, 3) = Inr True \<and>
   is_linked (binary_tree (rnd_of_list []) (new_grid 4 4)) (0, 1) (0, 0) = Inr True \<and>
   is_linked (binary_tree (rnd_of_list []) (new_grid 4 4)) (1, 3) (2, 3) = Inr True"
proof -
  have "\<forall>x y. protected 4 4 x y \<longrightarrow>
      map_of (links (binary_tree (rnd_of_list []) (new_grid 4 4)) x) y = Some True"
    using binary_tree_new_grid [of 4 4 "rnd_of_list []"] by simp
  then have "is_linked (binary_tree (rnd_of_list []) (new_grid 4 4)) x y = Inr True"
    if "protected 4 4 x y" for x y
    using that by (simp add: is_linked_def del: split_paired_All)
  then show ?thesis
    by (simp add: protected_def in_grid_def)
qed

section \<open>Binary tree: the carved grid is connected\<close>

lemma foldl_row_rule_distinct:
  assumes step: "\<And>S g j. P S g \<Longrightarrow> j \<in> set js \<Longrightarrow> (i, j) \<notin> S \<Longrightarrow> P (insert (i, j) S) (body g i j)"
    and init: "P S g" and d: "distinct js" and fresh: "\<forall>j \<in> set js. (i, j) \<notin> S"
  shows "P (S \<union> Pair i ` set js) (foldl (\<lambda>g j. body g i j) g js)"
  using assms
proof (induction js arbitrary: S g)
  case Nil
  then show ?case by simp
next
  case (Cons j js)
  have "P (insert (i, j) S) (body g i j)"
    using Cons.prems by simp
  moreover have "\<forall>j' \<in> set js. (i, j') \<notin> insert (i, j) S"
    using Cons.prems(3,4) by auto
  ultimately have "P (insert (i, j) S \<union> Pair i ` set js) (foldl (\<lambda>g j. body g i j) (body g i j) js)"
    using Cons.prems(1,3) by (intro Cons.IH) simp_all
  then show ?case by simp
qed

lemma foldl_rows_rule_distinct:
  assumes step: "\<And>S g i j. P S g \<Longrightarrow> i \<in> set is \<Longrightarrow> j \<in> set (js g) \<Longrightarrow> (i, j) \<notin> S \<Longrightarrow>
                   P (insert (i, j) S) (body g i j)"
    and cols: "\<And>S g. P S g \<Longrightarrow> set (js g) = J \<and> distinct (js g)"
    and init: "P S g" and d: "distinct is" and fresh: "\<forall>i \<in> set is. \<forall>j \<in> J. (i, j) \<notin> S"
  shows "P (S \<union> set is \<times> J) (foldl (\<lambda>g i. foldl (\<lambda>g j. body g i j) g (js g)) g is)"
  using assms
proof (induction "is" arbitrary: S g)
  case Nil
  then show ?case by simp
next
  case (Cons i "is")
  have J: "set (js g) = J" "distinct (js g)" using Cons.prems(2,3) by blast+
  have "P (S \<union> Pair i ` set (js g)) (foldl (\<lambda>g j. body g i j) g (js g))"
  proof (rule foldl_row_rule_distinct [where P = "\<lambda>S g'. P S g' \<and> set (js g') = J" and js = "js g", THEN conjunct1])
    show "P S g \<and> set (js g) = J" using Cons.prems J by simp
  next
    fix S g' j assume "P S g' \<and> set (js g') = J" "j \<in> set (js g)" "(i, j) \<notin> S"
    then have "P (insert (i, j) S) (body g' i j)"
      using Cons.prems(1) [of S g' i j] J by simp
    then show "P (insert (i, j) S) (body g' i j) \<and> set (js (body g' i j)) = J"
      using Cons.prems(2) by blast
  next
    show "distinct (js g)" by (rule J)
  next
    show "\<forall>j \<in> set (js g). (i, j) \<notin> S" using Cons.prems(5) J by simp
  qed
  moreover have "\<forall>i' \<in> set is. \<forall>j \<in> J. (i', j) \<notin> S \<union> Pair i ` J"
    using Cons.prems(4,5) by auto
  ultimately have "P ((S \<union> Pair i ` J) \<union> set is \<times> J)
     (foldl (\<lambda>g i. foldl (\<lambda>g j. body g i j) g (js g)) (foldl (\<lambda>g j. body g i j) g (js g)) is)"
    using Cons.prems(1,2,4) J by (intro Cons.IH) simp_all
  moreover have "(S \<union> Pair i ` J) \<union> set is \<times> J = S \<union> set (i # is) \<times> J"
    by auto
  ultimately show ?case by simp
qed

lemma distinct_py_range [simp]: "distinct (py_range n)"
  by (simp add: py_range_def)

lemma link_symmetric: "symmetric_links g \<Longrightarrow> symmetric_links (link g a b True)"
  using run_call_symmetric [of g "Link a b True"] by simp

lemma unlink_symmetric: "symmetric_links g \<Longrightarrow> symmetric_links (unlink g a b True)"
  using run_call_symmetric [of g "Unlink a b True"] by simp

lemma binary_tree_cell_symmetric:
  "symmetric_links (fst s) \<Longrightarrow> symmetric_links (fst (binary_tree_cell rnd s i j))"
  by (simp add: binary_tree_cell_def Let_def link_symmetric unlink_symmetric)

lemma link_entry_other:
  "\<not> is_pair x y p q \<Longrightarrow> map_of (links (link g p q d) x) y = map_of (links g x) y"
proof -
  assume "\<not> is_pair x y p q"
  then have "\<not> ((x = p \<and> y = q) \<or> (d \<and> x = q \<and> y = p))"
    unfolding is_pair_def by blast
  then show ?thesis
    unfolding link_entry by (simp only: if_False)
qed

lemma unlink_entry_other:
  "\<not> is_pair x y p q \<Longrightarrow> map_of (links (unlink g p q d) x) y = map_of (links g x) y"
proof -
  assume "\<not> is_pair x y p q"
  then have "\<not> ((x = p \<and> y = q) \<or> (d \<and> x = q \<and> y = p))"
    unfolding is_pair_def by blast
  then show ?thesis
    unfolding unlink_entry by (simp only: if_False)
qed

lemma binary_tree_cell_frame:
  assumes "\<not> is_pair x y (i, j) (i, j + 1)" "\<not> is_pair x y (i, j) (i - 1, j)"
  shows "map_of (links (fst (binary_tree_cell rnd s i j)) x) y = map_of (links (fst s) x) y"
proof -
  consider (corner) "i = 0 \<and> j = num_columns (fst s) - 1"
    | (top) "i = 0" "j \<noteq> num_columns (fst s) - 1"
    | (right) "i \<noteq> 0" "j = num_columns (fst s) - 1"
    | (inner) "i \<noteq> 0" "j \<noteq> num_columns (fst s) - 1"
    by blast
  then show ?thesis
  proof cases
    case corner
    then show ?thesis by (simp add: binary_tree_cell_def)
  next
    case top
    then show ?thesis
      using assms by (simp add: binary_tree_cell_def Let_def link_entry_other)
  next
    case right
    then show ?thesis
      using assms by (simp add: binary_tree_cell_def Let_def link_entry_other)
  next
    case inner
    then show ?thesis
      using assms by (simp add: binary_tree_cell_def Let_def unlink_entry_other)
  qed
qed

lemma binary_tree_cell_own:
  assumes "uncarved c (fst s) (i, j)" "num_columns (fst s) = c"
  shows "carved c (fst (binary_tree_cell rnd s i j)) (i, j)"
proof -
  consider (corner) "i = 0 \<and> j = c - 1"
    | (top) "i = 0" "j \<noteq> c - 1"
    | (right) "i \<noteq> 0" "j = c - 1"
    | (inner) "i \<noteq> 0" "j \<noteq> c - 1"
    by blast
  then show ?thesis
  proof cases
    case corner
    then show ?thesis by (simp add: carved_def)
  next
    case top
    then show ?thesis
      using assms(2) by (simp add: carved_def passage_def binary_tree_cell_def Let_def link_entry)
  next
    case right
    then show ?thesis
      using assms(2) by (simp add: carved_def passage_def binary_tree_cell_def Let_def link_entry)
  next
    case inner
    have n: "map_of (links (fst s) (i, j)) (i - 1, j) = Some True"
      and e: "map_of (links (fst s) (i, j)) (i, j + 1) = Some True"
      using assms(1) inner by (simp_all add: uncarved_def passage_def)
    have ne: "map_of (links (unlink g' (i, j) (i, j + 1) True) (i, j)) (i - 1, j) =
              map_of (links g' (i, j)) (i - 1, j)" for g'
      unfolding unlink_entry by simp
    have en: "map_of (links (unlink g' (i, j) (i - 1, j) True) (i, j)) (i, j + 1) =
              map_of (links g' (i, j)) (i, j + 1)" for g'
      unfolding unlink_entry by simp
    show ?thesis
    proof (cases "randint rnd (snd s) 0 1 = 0")
      case True
      then have "passage (fst (binary_tree_cell rnd s i j)) (i, j) (i - 1, j)"
        using inner assms(2) n by (simp add: passage_def binary_tree_cell_def Let_def ne)
      then show ?thesis using inner by (simp add: carved_def)
    next
      case False
      then have "passage (fst (binary_tree_cell rnd s i j)) (i, j) (i, j + 1)"
        using inner assms(2) e by (simp add: passage_def binary_tree_cell_def Let_def en)
      then show ?thesis using inner by (simp add: carved_def)
    qed
  qed
qed


lemma binary_tree_cell_others:
  assumes "x \<noteq> (i, j)"
  shows "passage (fst (binary_tree_cell rnd s i j)) x (fst x - 1, snd x) =
           passage (fst s) x (fst x - 1, snd x)"
    and "passage (fst (binary_tree_cell rnd s i j)) x (fst x, snd x + 1) =
           passage (fst s) x (fst x, snd x + 1)"
proof -
  have n: "\<not> is_pair x (fst x - 1, snd x) (i, j) (i, j + 1)" "\<not> is_pair x (fst x - 1, snd x) (i, j) (i - 1, j)"
       "\<not> is_pair x (fst x, snd x + 1) (i, j) (i, j + 1)" "\<not> is_pair x (fst x, snd x + 1) (i, j) (i - 1, j)"
    using assms unfolding is_pair_def by (cases x; auto)+
  show "passage (fst (binary_tree_cell rnd s i j)) x (fst x - 1, snd x) =
           passage (fst s) x (fst x - 1, snd x)"
    and "passage (fst (binary_tree_cell rnd s i j)) x (fst x, snd x + 1) =
           passage (fst s) x (fst x, snd x + 1)"
    unfolding passage_def
    by (simp_all only: binary_tree_cell_frame [OF n(1,2)] binary_tree_cell_frame [OF n(3,4)])
qed

lemma binary_tree_carves:
  fixes g :: grid
  assumes r: "num_rows g = r" and c: "num_columns g = c"
    and sym: "symmetric_links g"
    and full: "\<And>x. in_grid r c x \<Longrightarrow> uncarved c g x"
  shows "symmetric_links (binary_tree rnd g) \<and>
         (\<forall>x. in_grid r c x \<longrightarrow> carved c (binary_tree rnd g) x)"
proof -
  let ?I = "\<lambda>(S :: cell set) (s :: grid \<times> nat).
     num_rows (fst s) = r \<and> num_columns (fst s) = c \<and> symmetric_links (fst s) \<and>
     (\<forall>x. in_grid r c x \<longrightarrow> (if x \<in> S then carved c (fst s) x else uncarved c (fst s) x))"
  have "?I ({} \<union> set (rev (py_range r)) \<times> {0..c - 1})
     (foldl (\<lambda>s i. foldl (\<lambda>s j. binary_tree_cell rnd s i j) s (py_range (num_columns (fst s))))
        (g, 0) (rev (py_range r)))"
  proof (rule foldl_rows_rule_distinct [where P = ?I])
    show "?I {} (g, 0)"
      using r c sym full by simp
  next
    fix S s assume "?I S s"
    then show "set (py_range (num_columns (fst s))) = {0..c - 1} \<and>
               distinct (py_range (num_columns (fst s)))"
      by simp
  next
    show "distinct (rev (py_range r))" by simp
  next
    show "\<forall>i \<in> set (rev (py_range r)). \<forall>j \<in> {0..c - 1}. (i, j) \<notin> {}" by simp
  next
    fix S s i j
    assume I: "?I S s" and i: "i \<in> set (rev (py_range r))"
      and j: "j \<in> set (py_range (num_columns (fst s)))" and new: "(i, j) \<notin> S"
    have d: "num_rows (fst s) = r" "num_columns (fst s) = c"
      using I by simp_all
    have ij: "in_grid r c (i, j)"
      using i j d by (simp add: in_grid_def)
    have old: "if x \<in> S then carved c (fst s) x else uncarved c (fst s) x" if "in_grid r c x" for x
      using I that by blast
    have own: "carved c (fst (binary_tree_cell rnd s i j)) (i, j)"
      using old [OF ij] new d by (intro binary_tree_cell_own) simp_all
    have others: "carved c (fst (binary_tree_cell rnd s i j)) x = carved c (fst s) x"
         "uncarved c (fst (binary_tree_cell rnd s i j)) x = uncarved c (fst s) x"
      if "x \<noteq> (i, j)" for x
      unfolding carved_def uncarved_def binary_tree_cell_others [OF that] by simp_all
    have "if x \<in> insert (i, j) S then carved c (fst (binary_tree_cell rnd s i j)) x
          else uncarved c (fst (binary_tree_cell rnd s i j)) x" if "in_grid r c x" for x
    proof (cases "x = (i, j)")
      case True
      then show ?thesis using own by simp
    next
      case False
      then show ?thesis using old [OF that] others [OF False] by simp
    qed
    then show "?I (insert (i, j) S) (binary_tree_cell rnd s i j)"
      using I by (simp add: binary_tree_cell_symmetric del: split_paired_All)
  qed
  then have "?I ({0..r - 1} \<times> {0..c - 1}) (binary_tree rnd g, undefined)"
    by (simp add: binary_tree_def r del: split_paired_All)
  then show ?thesis
    by (simp add: in_grid_iff del: split_paired_All)
qed

lemma carved_reaches_corner:
  assumes all: "\<And>x. in_grid r c x \<Longrightarrow> carved c g x" and x: "in_grid r c x"
  shows "reachable g x (0, c - 1)"
  using x
proof (induction "nat (fst x + (c - 1 - snd x))" arbitrary: x rule: less_induct)
  case less
  from all [OF less.prems] consider
      (corner) "fst x = 0 \<and> snd x = c - 1"
    | (north) "fst x \<noteq> 0" "passage g x (fst x - 1, snd x)"
    | (east) "snd x \<noteq> c - 1" "passage g x (fst x, snd x + 1)"
    unfolding carved_def by blast
  then show ?case
  proof cases
    case corner
    then have "x = (0, c - 1)" by (cases x) simp
    then show ?thesis by (simp add: reachable_def)
  next
    case north
    have "in_grid r c (fst x - 1, snd x)"
      using less.prems north(1) by (simp add: in_grid_def)
    moreover have "nat (fst (fst x - 1, snd x) + (c - 1 - snd (fst x - 1, snd x))) <
                   nat (fst x + (c - 1 - snd x))"
      using less.prems north(1) by (simp add: in_grid_def)
    ultimately have "reachable g (fst x - 1, snd x) (0, c - 1)"
      by (rule less.hyps [rotated])
    then show ?thesis
      using north(2) unfolding reachable_def by (rule converse_rtranclp_into_rtranclp [rotated])
  next
    case east
    have "in_grid r c (fst x, snd x + 1)"
      using less.prems east(1) by (simp add: in_grid_def)
    moreover have "nat (fst (fst x, snd x + 1) + (c - 1 - snd (fst x, snd x + 1))) <
                   nat (fst x + (c - 1 - snd x))"
      using less.prems east(1) by (simp add: in_grid_def)
    ultimately have "reachable g (fst x, snd x + 1) (0, c - 1)"
      by (rule less.hyps [rotated])
    then show ?thesis
      using east(2) unfolding reachable_def by (rule converse_rtranclp_into_rtranclp [rotated])
  qed
qed

lemma reachable_sym:
  assumes "symmetric_links g" "reachable g a b"
  shows "reachable g b a"
proof -
  have p: "passage g x y \<Longrightarrow> passage g y x" for x y
    using assms(1) unfolding symmetric_links_def passage_def by metis
  have "(passage g)\<^sup>*\<^sup>* a b" using assms(2) by (simp add: reachable_def)
  then have "(passage g)\<^sup>*\<^sup>* b a"
  proof (induction rule: rtranclp_induct)
    case base
    show ?case by simp
  next
    case (step y z)
    from p [OF step.hyps(2)] step.IH show ?case
      by (rule converse_rtranclp_into_rtranclp)
  qed
  then show ?thesis by (simp add: reachable_def)
qed

lemma set_each_cell: "set (each_cell g) = {x. in_grid (num_rows g) (num_columns g) x}"
  by (auto simp add: each_cell_def in_grid_def)

lemma binary_tree_dims:
  "num_rows (binary_tree rnd g) = num_rows g \<and> num_columns (binary_tree rnd g) = num_columns g"
proof -
  let ?I = "\<lambda>(S :: cell set) (s :: grid \<times> nat).
     num_rows (fst s) = num_rows g \<and> num_columns (fst s) = num_columns g"
  have "?I ({} \<union> set (rev (py_range (num_rows g))) \<times> {0..num_columns g - 1})
     (foldl (\<lambda>s i. foldl (\<lambda>s j. binary_tree_cell rnd s i j) s (py_range (num_columns (fst s))))
        (g, 0) (rev (py_range (num_rows g))))"
    by (rule foldl_rows_rule [where P = ?I]) simp_all
  then show ?thesis by (simp add: binary_tree_def)
qed

text \<open>
  For every grid and every sequence of random choices, after \<^verbatim>\<open>binary_tree\<close> every cell
  is reachable from every cell: each cell but the top right one keeps a passage to the
  north or to the east, and so reaches the top right cell.
\<close>

theorem binary_tree_connected:
  assumes "Grid r c = Inr g"
  shows "connected (binary_tree rnd g)"
proof -
  have g: "g = new_grid r c"
    using assms by (simp add: Grid_def split: if_splits)
  have full: "uncarved c g x" if "in_grid r c x" for x
    using that unfolding uncarved_def passage_def g new_grid_entry
    by (cases x) (simp add: in_grid_def geo_def)
  have "symmetric_links (binary_tree rnd g) \<and>
         (\<forall>x. in_grid r c x \<longrightarrow> carved c (binary_tree rnd g) x)"
    by (rule binary_tree_carves) (simp_all add: g new_grid_symmetric full [unfolded g])
  then have sym: "symmetric_links (binary_tree rnd g)"
    and carved: "\<And>x. in_grid r c x \<Longrightarrow> carved c (binary_tree rnd g) x"
    by blast+
  have "reachable (binary_tree rnd g) a b" if "in_grid r c a" "in_grid r c b" for a b
  proof -
    have "reachable (binary_tree rnd g) a (0, c - 1)" "reachable (binary_tree rnd g) b (0, c - 1)"
      by (rule carved_reaches_corner [OF carved that(1)], assumption)
         (rule carved_reaches_corner [OF carved that(2)], assumption)
    then show ?thesis
      using reachable_sym [OF sym] unfolding reachable_def by (meson rtranclp_trans)
  qed
  then show ?thesis
    using binary_tree_dims [of rnd g]
    by (simp add: connected_def list_all_iff set_each_cell g)
qed

theorem binary_tree_connected_witness:
  "Grid 2 2 = Inr (new_grid 2 2) \<and> connected (binary_tree (rnd_of_list [1, 0]) (new_grid 2 2))"
proof -
  have h: "Grid 2 2 = Inr (new_grid 2 2)"
    by (simp add: Grid_def)
  from binary_tree_connected [OF h] h show ?thesis
    by simp
qed

section \<open>Recursive backtracker: a run that leaves a cell out\<close>

lemma rb_run:
  "recursive_backtracker rb_rnd (new_grid 2 2) None = Some (Inr (rb_result, 5))"
  unfolding recursive_backtracker_def rb_rnd_def rb_result_def
  apply (simp add: random_cell_def randint_def rnd_of_list_def)
  apply (subst rb_loop.simps)
  apply (simp add: size_grid_def py_get_def occupied_def new_grid_attrs in_grid_def randint_def
      rnd_of_list_def rb_choose_def)
  apply (subst rb_loop.simps)
  apply (simp add: size_grid_def py_get_def occupied_def new_grid_attrs in_grid_def randint_def
      rnd_of_list_def rb_choose_def)
  apply (subst rb_loop.simps)
  apply (simp add: size_grid_def py_get_def occupied_def new_grid_attrs in_grid_def randint_def
      rnd_of_list_def rb_choose_def)
  apply (subst rb_loop.simps)
  apply (simp add: size_grid_def)
  done

lemma rb_result_isolated: "\<not> passage rb_result x (0, 1)"
  unfolding passage_def rb_result_def link_entry unlink_all_entry new_grid_entry
  by (cases x) (auto simp add: in_grid_def geo_def)

lemma rb_not_reachable: "\<not> reachable rb_result (0, 0) (0, 1)"
proof
  assume "reachable rb_result (0, 0) (0, 1)"
  then have "(passage rb_result)\<^sup>*\<^sup>* (0, 0) (0, 1)"
    by (simp add: reachable_def)
  then show False
    by (cases rule: rtranclp.cases) (simp_all add: rb_result_isolated)
qed

text \<open>
  Claim C1. On \<^verbatim>\<open>Grid(2, 2)\<close>, with the random choices of \<open>rb_rnd\<close>,
  \<^verbatim>\<open>recursive_backtracker\<close> returns after three steps: the walk goes from \<open>(0, 0)\<close> to
  \<open>(1, 0)\<close> and \<open>(1, 1)\<close> and then back to \<open>(1, 0)\<close>, which it appends to \<^verbatim>\<open>visited\<close> a
  second time, so the list reaches the length \<^verbatim>\<open>size()\<close>. The cell \<open>(0, 1)\<close> was never
  visited, no passage leads to it, and the carved grid is not connected.
\<close>

theorem recursive_backtracker_disconnected:
  "Grid 2 2 = Inr (new_grid 2 2) \<and>
   recursive_backtracker rb_rnd (new_grid 2 2) None = Some (Inr (rb_result, 5)) \<and>
   each_cell rb_result = [(0, 0), (0, 1), (1, 0), (1, 1)] \<and>
   \<not> reachable rb_result (0, 0) (0, 1) \<and>
   \<not> connected rb_result"
proof -
  have c: "each_cell rb_result = [(0, 0), (0, 1), (1, 0), (1, 1)]"
    by (simp add: each_cell_def rb_result_def py_range_def upto_rec1)
  have "\<not> connected rb_result"
    using rb_not_reachable by (simp add: connected_def c)
  then show ?thesis
    using rb_run rb_not_reachable c by (simp add: Grid_def)
qed

section \<open>Aldous-Broder and Wilson on a grid of one cell\<close>

lemma ab_again_returns_neighbour:
  assumes "ab_again rnd g linked_cells cell k = Some y"
  shows "\<not> (north g cell = None \<and> south g cell = None \<and> east g cell = None \<and> west g cell = None)"
proof (rule ab_again.raw_induct [where P = "\<lambda>rnd g linked_cells cell k y.
    \<not> (north g cell = None \<and> south g cell = None \<and> east g cell = None \<and> west g cell = None)",
    OF _ assms])
  fix f :: "rnd \<Rightarrow> grid \<Rightarrow> (cell \<times> cell) list \<Rightarrow> cell \<Rightarrow> nat \<Rightarrow> (grid \<times> cell \<times> nat) option"
    and rnd g linked_cells cell k y
  assume IH: "\<And>rnd g linked_cells cell k y. f rnd g linked_cells cell k = Some y \<Longrightarrow>
      \<not> (north g cell = None \<and> south g cell = None \<and> east g cell = None \<and> west g cell = None)"
    and body: "(case random_neighbor g cell (randint rnd k 1 4) of
        None \<Rightarrow> f rnd g linked_cells cell (k + 1)
      | Some n \<Rightarrow>
          (case ab_move g linked_cells cell n of (g', next_cell) \<Rightarrow> Some (g', next_cell, k + 1))) =
      Some y"
  show "\<not> (north g cell = None \<and> south g cell = None \<and> east g cell = None \<and> west g cell = None)"
  proof
    assume st: "north g cell = None \<and> south g cell = None \<and> east g cell = None \<and> west g cell = None"
    then have "f rnd g linked_cells cell (k + 1) = Some y"
      using body by (simp add: random_neighbor_def)
    from IH [OF this] st show False by simp
  qed
qed

lemma ab_again_stuck:
  assumes "north g cell = None" "south g cell = None" "east g cell = None" "west g cell = None"
  shows "ab_again rnd g linked_cells cell k = None"
proof (cases "ab_again rnd g linked_cells cell k")
  case None
  then show ?thesis .
next
  case (Some y)
  from ab_again_returns_neighbour [OF this] assms show ?thesis by simp
qed

lemma aldous_broder_1x1: "aldous_broder rnd (new_grid 1 1) = None"
proof -
  have s: "ab_again rnd (unlink_all (new_grid 1 1)) l (0, 0) k = None" for l k
    by (rule ab_again_stuck) (simp_all add: new_grid_attrs in_grid_def)
  show ?thesis
    unfolding aldous_broder_def
    apply (simp add: randrange_def)
    apply (subst ab_loop.simps)
    apply (simp add: size_grid_def s)
    done
qed

lemma wilson_1x1:
  "wilson rnd (new_grid 1 1) = Some (Inr (unlink_all (new_grid 1 1), 0, 0, 1))"
proof -
  have c: "each_cell (unlink_all (new_grid 1 1)) = [(0, 0)]"
    by (simp add: each_cell_def py_range_def)
  have a: "py_choice rnd 0 [(0, 0) :: cell] = Inr (0, 0)"
    by (simp add: py_choice_def)
  have r: "py_remove (0, 0) [(0, 0) :: cell] = Inr []"
    by (simp add: py_remove_def)
  have l: "wilson_loop rnd (unlink_all (new_grid 1 1)) [(0, 0)] [] 1 0 0 =
           Some (Inr (unlink_all (new_grid 1 1), 0, 0, 1))"
    by (subst wilson_loop.simps) (simp add: size_grid_def)
  show ?thesis
    using l by (simp add: wilson_def Let_def c a r)
qed

text \<open>
  Claim C8. On \<^verbatim>\<open>Grid(1, 1)\<close>, for every sequence of random choices: \<^verbatim>\<open>aldous_broder\<close>
  never returns (its inner loop draws directions forever, the only cell having no
  neighbour); \<^verbatim>\<open>wilson\<close> returns at once, with \<^verbatim>\<open>random_choices = 0\<close> and
  \<^verbatim>\<open>loops_removed = 0\<close>, after the one draw that picks the first visited cell.
\<close>

theorem aldous_broder_1x1_never_returns:
  "Grid 1 1 = Inr (new_grid 1 1) \<and>
   aldous_broder rnd (new_grid 1 1) = None \<and>
   wilson rnd (new_grid 1 1) = Some (Inr (unlink_all (new_grid 1 1), 0, 0, 1))"
  by (simp add: Grid_def aldous_broder_1x1 wilson_1x1)

end
